theory Spec2Isabelle
  imports Complex_Main "HOL-Library.Word"
begin

unbundle bit_operations_syntax

section \<open>Baum-Welch estimation of a hidden Markov model (hmm-core.js)\<close>

text \<open>
  The embedding follows \<^verbatim>\<open>src/hmm-core.js\<close> function by function.

  Numbers. The 32-bit integer arithmetic of the generator is modelled on \<open>32 word\<close>.
  Every other JavaScript number is an IEEE double in the source and a \<open>real\<close> here:
  the development is about the arithmetic the program writes down, carried out exactly.
  Rounding, overflow and underflow of doubles are outside the model, and so is NaN.
  Counts and symbol codes, which the entry point obtains with \<^verbatim>\<open>parseInt\<close>, are
  \<open>int\<close>; limits of the engine on the size of an array are not modelled.
\<close>

subsection \<open>JavaScript idioms\<close>

datatype error = TypeError | RangeError

text \<open>\<^verbatim>\<open>v || d\<close> on a number that may be missing: \<^verbatim>\<open>undefined\<close> (here \<open>None\<close>)
  and \<open>0\<close> are falsy and give \<open>d\<close>.\<close>

definition js_or :: "'a::zero option \<Rightarrow> 'a \<Rightarrow> 'a" where
  "js_or v d = (case v of None \<Rightarrow> d | Some x \<Rightarrow> if x = 0 then d else x)"

text \<open>\<^verbatim>\<open>xs[k]\<close> for a number \<open>k\<close>: \<^verbatim>\<open>undefined\<close> outside the array.\<close>

definition js_get :: "'a list \<Rightarrow> int \<Rightarrow> 'a option" where
  "js_get xs k = (if 0 \<le> k \<and> nat k < length xs then Some (xs ! nat k) else None)"

text \<open>The literal \<^verbatim>\<open>1e-300\<close>.\<close>

definition tiny :: real where
  "tiny = 1 / 10 ^ 300"

subsection \<open>mulberry32 (lines 24-32)\<close>

text \<open>The closure returned by \<^verbatim>\<open>mulberry32(seed)\<close> owns one mutable variable, \<open>seed\<close>;
  after the first \<^verbatim>\<open>seed |= 0\<close> it is a 32-bit integer for good. The generator is that
  variable, and a call returns the float drawn and the generator advanced.\<close>

type_synonym generator = "32 word"

definition mulberry32 :: "int \<Rightarrow> generator" where
  "mulberry32 seed = word_of_int seed"

definition mulberry32_call :: "generator \<Rightarrow> real \<times> generator" where
  "mulberry32_call seed0 =
     (let seed = seed0 + 0x6D2B79F5;
          t = (seed XOR drop_bit 15 seed) * (1 OR seed);
          t = (t + (t XOR drop_bit 7 t) * (61 OR t)) XOR t
      in (real (unat (t XOR drop_bit 14 t)) / 4294967296, seed))"

subsection \<open>logSumExp (lines 38-45)\<close>

text \<open>The entries of the array are finite numbers or one of the two infinities.\<close>

datatype num = MInf | Num real | PInf

fun num_gt :: "num \<Rightarrow> num \<Rightarrow> bool" where
  "num_gt (Num a) (Num b) = (a > b)"
| "num_gt (Num a) MInf = True"
| "num_gt (Num a) PInf = False"
| "num_gt PInf PInf = False"
| "num_gt PInf b = True"
| "num_gt MInf b = False"

text \<open>\<^verbatim>\<open>Math.exp(arr[i] - max)\<close> for a finite \<open>max\<close>. The third case is never
  evaluated: an array that holds \<open>+Infinity\<close> has that as its maximum, and the function
  has returned before the second loop (lemma \<open>max_loop_finite\<close> below).\<close>

fun exp_minus :: "num \<Rightarrow> real \<Rightarrow> real" where
  "exp_minus (Num a) m = exp (a - m)"
| "exp_minus MInf m = 0"
| "exp_minus PInf m = 0"

definition logSumExp :: "num list \<Rightarrow> num" where
  "logSumExp arr =
     (let max = foldl (\<lambda>max x. if num_gt x max then x else max) MInf arr
      in case max of
           Num m \<Rightarrow> (let s = foldl (\<lambda>s x. s + exp_minus x m) 0 arr in Num (m + ln s))
         | _ \<Rightarrow> MInf)"

subsection \<open>The estimator: construction (lines 66-93)\<close>

record opts =
  opt_maxIter :: "int option"
  opt_epsilon :: "real option"
  opt_seed :: "int option"

record hmm =
  hmm_O :: "int list"
  hmm_T :: nat
  hmm_N :: int
  hmm_M :: int
  maxIter :: int
  epsilon :: real
  hmm_pi :: "real list"
  hmm_A :: "real list list"
  hmm_B :: "real list list"
  logLikeHistory :: "real list"
  iterations :: nat
  converged :: bool
  finalAlpha :: "real list list option"
  finalGamma :: "real list list option"

text \<open>\<^verbatim>\<open>Array.from({ length: k }, () => rand() + 0.2)\<close>: \<open>k\<close> draws, in index order.\<close>

fun draw_row :: "nat \<Rightarrow> generator \<Rightarrow> real list \<times> generator" where
  "draw_row 0 g = ([], g)"
| "draw_row (Suc k) g =
     (case mulberry32_call g of (x, g1) \<Rightarrow>
      case draw_row k g1 of (xs, g2) \<Rightarrow> ((x + 2 / 10) # xs, g2))"

definition randRow :: "int \<Rightarrow> generator \<Rightarrow> real list \<times> generator" where
  "randRow k rand =
     (case draw_row (nat k) rand of (v, rand') \<Rightarrow>
        (let s = foldl (+) 0 v in (map (\<lambda>x. x / s) v, rand')))"

text \<open>\<^verbatim>\<open>Array.from({ length: n }, () => this._randRow(k, rand))\<close>.\<close>

fun randRows :: "nat \<Rightarrow> int \<Rightarrow> generator \<Rightarrow> real list list \<times> generator" where
  "randRows 0 k g = ([], g)"
| "randRows (Suc n) k g =
     (case randRow k g of (r, g1) \<Rightarrow>
      case randRows n k g1 of (rs, g2) \<Rightarrow> (r # rs, g2))"

text \<open>The constructor has no \<^verbatim>\<open>throw\<close> and reads nothing that can be missing: every
  call returns an instance.\<close>

definition HMM_new :: "int list \<Rightarrow> int \<Rightarrow> int \<Rightarrow> opts \<Rightarrow> error + hmm" where
  "HMM_new obs N M opts =
     (let rand = mulberry32 (js_or (opt_seed opts) 42) in
      case randRow N rand of (pi0, rand1) \<Rightarrow>
      case randRows (nat N) N rand1 of (A0, rand2) \<Rightarrow>
      case randRows (nat N) M rand2 of (B0, rand3) \<Rightarrow>
        Inr \<lparr> hmm_O = obs, hmm_T = length obs, hmm_N = N, hmm_M = M,
              maxIter = js_or (opt_maxIter opts) 100,
              epsilon = js_or (opt_epsilon opts) (1 / 10 ^ 6),
              hmm_pi = pi0, hmm_A = A0, hmm_B = B0,
              logLikeHistory = [], iterations = 0, converged = False,
              finalAlpha = None, finalGamma = None \<rparr>)"

subsection \<open>Forward pass (lines 106-147)\<close>

text \<open>\<^verbatim>\<open>B[j][O[t]] || 1e-300\<close>. The rows \<open>pi\<close>, \<open>A[i]\<close> and \<open>B[j]\<close> are read at
  \<open>i, j < N\<close> only, where the constructor and the M-step have put them.\<close>

definition emit :: "hmm \<Rightarrow> nat \<Rightarrow> nat \<Rightarrow> real" where
  "emit h j t = js_or (Option.bind (js_get (hmm_O h) (int t)) (js_get (hmm_B h ! j))) tiny"

record fwd =
  fwd_alpha :: "real list list"
  fwd_c :: "real list"
  fwd_logLik :: real
  fwd_logAlpha :: "real list list"

text \<open>\<^verbatim>\<open>sum > 0 ? 1 / sum : 1\<close>, for the sum the loop has accumulated over the row.\<close>

definition scale_factor :: "real list \<Rightarrow> real" where
  "scale_factor row = (let sum = foldl (+) 0 row in if sum > 0 then 1 / sum else 1)"

definition alpha_first :: "hmm \<Rightarrow> real list" where
  "alpha_first h = map (\<lambda>i. hmm_pi h ! i * emit h i 0) [0..<nat (hmm_N h)]"

definition alpha_next :: "hmm \<Rightarrow> real list \<Rightarrow> nat \<Rightarrow> real list" where
  "alpha_next h prev t =
     map (\<lambda>j. foldl (\<lambda>acc i. acc + prev ! i * hmm_A h ! i ! j) 0 [0..<nat (hmm_N h)] * emit h j t)
       [0..<nat (hmm_N h)]"

text \<open>The loop \<^verbatim>\<open>for (let t = 1; t < T; t++)\<close>; \<open>prev\<close> is the row \<open>alpha[t - 1]\<close>, and
  the result the rows \<open>alpha[t]\<close> and the factors \<open>c[t]\<close> from \<open>t\<close> on.\<close>

function forward_loop :: "hmm \<Rightarrow> nat \<Rightarrow> real list \<Rightarrow> (real list \<times> real) list" where
  "forward_loop h t prev =
     (if t < hmm_T h then
        (let raw = alpha_next h prev t;
             c = scale_factor raw;
             row = map (\<lambda>x. x * c) raw
         in (row, c) # forward_loop h (t + 1) row)
      else [])"
  by pat_completeness auto
termination
  by (relation "measure (\<lambda>(h, t, prev). hmm_T h - t)") auto

declare forward_loop.simps [simp del]

definition log_floor :: "real \<Rightarrow> real" where
  "log_floor x = ln (if x > 0 then x else tiny)"

text \<open>With \<open>T = 0\<close> the write \<^verbatim>\<open>alpha[0][i] = ...\<close> is a TypeError as soon as the loop
  over \<open>i\<close> runs; with \<open>T > 0\<close> a negative \<open>N\<close> is a RangeError of
  \<^verbatim>\<open>new Float64Array(N)\<close>.\<close>

definition forward :: "hmm \<Rightarrow> error + fwd" where
  "forward h =
     (if hmm_T h = 0 then
        (if 1 \<le> hmm_N h then Inl TypeError
         else Inr \<lparr> fwd_alpha = [], fwd_c = [], fwd_logLik = 0, fwd_logAlpha = [] \<rparr>)
      else if hmm_N h < 0 then Inl RangeError
      else
        (let raw = alpha_first h;
             c0 = scale_factor raw;
             row = map (\<lambda>x. x * c0) raw;
             rows = (row, c0) # forward_loop h 1 row;
             alpha = map fst rows;
             c = map snd rows;
             logLik = foldl (\<lambda>logLik t. logLik - log_floor (c ! t)) 0 [0..<hmm_T h];
             logAlpha = map (\<lambda>t. map (\<lambda>i. log_floor (alpha ! t ! i) + - log_floor (c ! t))
                                     [0..<nat (hmm_N h)]) [0..<hmm_T h]
         in Inr \<lparr> fwd_alpha = alpha, fwd_c = c, fwd_logLik = logLik, fwd_logAlpha = logAlpha \<rparr>))"

subsection \<open>Backward pass (lines 155-172)\<close>

definition beta_prev :: "hmm \<Rightarrow> real list \<Rightarrow> nat \<Rightarrow> real list \<Rightarrow> real list" where
  "beta_prev h c t nxt =
     map (\<lambda>i. foldl (\<lambda>acc j. acc + hmm_A h ! i ! j * emit h j (t + 1) * nxt ! j) 0
                 [0..<nat (hmm_N h)] * c ! t)
       [0..<nat (hmm_N h)]"

text \<open>The loop \<^verbatim>\<open>for (let t = T - 2; t >= 0; t--)\<close>, counted by \<open>t + 1\<close>; \<open>nxt\<close> is the
  row \<open>beta[t + 1]\<close>, and the result the rows \<open>beta[0], ..., beta[t]\<close>.\<close>

fun backward_loop :: "hmm \<Rightarrow> real list \<Rightarrow> nat \<Rightarrow> real list \<Rightarrow> real list list" where
  "backward_loop h c 0 nxt = []"
| "backward_loop h c (Suc t) nxt =
     (let row = beta_prev h c t nxt in backward_loop h c t row @ [row])"

definition backward :: "hmm \<Rightarrow> real list \<Rightarrow> error + real list list" where
  "backward h c =
     (if hmm_T h = 0 then (if 1 \<le> hmm_N h then Inl TypeError else Inr [])
      else if hmm_N h < 0 then Inl RangeError
      else
        (let last = replicate (nat (hmm_N h)) (c ! (hmm_T h - 1))
         in Inr (backward_loop h c (hmm_T h - 1) last @ [last])))"

subsection \<open>E-step (lines 183-215)\<close>

definition gamma_row :: "hmm \<Rightarrow> real list list \<Rightarrow> real list list \<Rightarrow> nat \<Rightarrow> real list" where
  "gamma_row h alpha beta t =
     (let g = map (\<lambda>i. alpha ! t ! i * beta ! t ! i) [0..<nat (hmm_N h)];
          s = foldl (+) 0 g
      in if s > 0 then map (\<lambda>x. x / s) g else g)"

definition xi_mat :: "hmm \<Rightarrow> real list list \<Rightarrow> real list list \<Rightarrow> nat \<Rightarrow> real list list" where
  "xi_mat h alpha beta t =
     (let mat = map (\<lambda>i. map (\<lambda>j. alpha ! t ! i * hmm_A h ! i ! j * emit h j (t + 1)
                                    * beta ! (t + 1) ! j) [0..<nat (hmm_N h)])
                  [0..<nat (hmm_N h)];
          s = foldl (+) 0 (concat mat)
      in if s > 0 then map (map (\<lambda>x. x / s)) mat else mat)"

definition estep ::
  "hmm \<Rightarrow> real list list \<Rightarrow> real list list \<Rightarrow> error + (real list list \<times> real list list list)" where
  "estep h alpha beta =
     (if 0 < hmm_T h \<and> hmm_N h < 0 then Inl RangeError
      else Inr (map (gamma_row h alpha beta) [0..<hmm_T h],
                map (xi_mat h alpha beta) [0..<hmm_T h - 1]))"

subsection \<open>M-step (lines 223-260)\<close>

definition normalise :: "real list \<Rightarrow> real list" where
  "normalise row = (let s = js_or (Some (foldl (+) 0 row)) 1 in map (\<lambda>x. x / s) row)"

definition newA :: "hmm \<Rightarrow> real list list \<Rightarrow> real list list list \<Rightarrow> real list list" where
  "newA h gamma xi =
     map (\<lambda>i. let den = foldl (\<lambda>den t. den + gamma ! t ! i) 0 [0..<hmm_T h - 1];
                  den = js_or (Some den) tiny
              in map (\<lambda>j. foldl (\<lambda>num t. num + xi ! t ! i ! j) 0 [0..<hmm_T h - 1] / den)
                   [0..<nat (hmm_N h)])
       [0..<nat (hmm_N h)]"

definition newB :: "hmm \<Rightarrow> real list list \<Rightarrow> real list list" where
  "newB h gamma =
     map (\<lambda>i. let den = foldl (\<lambda>den t. den + gamma ! t ! i) 0 [0..<hmm_T h];
                  den = js_or (Some den) tiny
              in map (\<lambda>k. foldl (\<lambda>num t. if js_get (hmm_O h) (int t) = Some (int k)
                                          then num + gamma ! t ! i else num) 0 [0..<hmm_T h] / den)
                   [0..<nat (hmm_M h)])
       [0..<nat (hmm_N h)]"

text \<open>\<^verbatim>\<open>Array.from(gamma[0])\<close> is a TypeError when \<open>gamma\<close> has no row.\<close>

definition mstep ::
  "hmm \<Rightarrow> real list list \<Rightarrow> real list list list \<Rightarrow> error + (real list \<times> real list list \<times> real list list)"
  where
  "mstep h gamma xi =
     (case gamma of
        [] \<Rightarrow> Inl TypeError
      | g0 # _ \<Rightarrow> Inr (normalise g0, map normalise (newA h gamma xi), map normalise (newB h gamma)))"

subsection \<open>Training loop (lines 268-310)\<close>

text \<open>The text of a message is kept as its parts: the status line carries \<open>iter + 1\<close>, the
  log-likelihood and the difference to the previous one (\<open>None\<close> where the source prints
  \<^verbatim>\<open>+\<infinity>\<close> because the previous value is not finite); the last line carries \<open>iter + 1\<close>.
  A call of the callback is the message, the index and the third argument (\<open>None\<close> when
  the call passes two arguments).\<close>

datatype message = IterMsg nat real "real option" | ConvergedMsg nat

type_synonym call = "message \<times> nat \<times> bool option"

text \<open>Forward, backward and E-step on the current parameters, stored for the charts
  (lines 291-295 and 304-308).\<close>

definition final_pass :: "hmm \<Rightarrow> error + hmm" where
  "final_pass h =
     (case forward h of Inl e \<Rightarrow> Inl e | Inr f \<Rightarrow>
      case backward h (fwd_c f) of Inl e \<Rightarrow> Inl e | Inr fb \<Rightarrow>
      case estep h (fwd_alpha f) fb of Inl e \<Rightarrow> Inl e | Inr fg \<Rightarrow>
        Inr (h\<lparr> finalAlpha := Some (fwd_logAlpha f), finalGamma := Some (fst fg) \<rparr>))"

text \<open>Lines 272-281: one pass of forward, backward, E-step and M-step, and the five
  assignments. The result is the instance and the log-likelihood of the pass.\<close>

definition em_iteration :: "hmm \<Rightarrow> nat \<Rightarrow> error + (hmm \<times> real)" where
  "em_iteration h iter =
     (case forward h of Inl e \<Rightarrow> Inl e | Inr f \<Rightarrow>
      case backward h (fwd_c f) of Inl e \<Rightarrow> Inl e | Inr beta \<Rightarrow>
      case estep h (fwd_alpha f) beta of Inl e \<Rightarrow> Inl e | Inr (gamma, xi) \<Rightarrow>
      case mstep h gamma xi of Inl e \<Rightarrow> Inl e | Inr (pi', A', B') \<Rightarrow>
        Inr (h\<lparr> hmm_pi := pi', hmm_A := A', hmm_B := B',
                logLikeHistory := logLikeHistory h @ [fwd_logLik f],
                iterations := iter + 1 \<rparr>, fwd_logLik f))"

lemma em_iteration_maxIter:
  "em_iteration h iter = Inr (h1, logLik) \<Longrightarrow> maxIter h1 = maxIter h"
  by (auto simp: em_iteration_def split: sum.splits prod.splits)

text \<open>The \<^verbatim>\<open>for\<close> loop of \<^verbatim>\<open>train\<close>. \<open>prevLL = None\<close> is \<^verbatim>\<open>-Infinity\<close>; \<open>cb\<close> says
  whether a callback was passed, and \<open>calls\<close> are the calls made so far.\<close>

function train_loop ::
  "bool \<Rightarrow> hmm \<Rightarrow> real option \<Rightarrow> nat \<Rightarrow> call list \<Rightarrow> error + (hmm \<times> call list)" where
  "train_loop cb h prevLL iter calls =
     (if int iter < maxIter h then
        (case em_iteration h iter of
           Inl e \<Rightarrow> Inl e
         | Inr (h1, logLik) \<Rightarrow>
            (let delta = map_option (\<lambda>p. logLik - p) prevLL;
                 calls1 = (if cb then calls @ [(IterMsg (iter + 1) logLik delta, iter, None)]
                           else calls)
             in if 0 < iter \<and> (case delta of None \<Rightarrow> False | Some d \<Rightarrow> \<bar>d\<bar> < epsilon h1) then
                  (case final_pass (h1\<lparr> converged := True \<rparr>) of
                     Inl e \<Rightarrow> Inl e
                   | Inr h2 \<Rightarrow>
                       Inr (h2, if cb then calls1 @ [(ConvergedMsg (iter + 1), iter, Some True)]
                                else calls1))
                else train_loop cb h1 (Some logLik) (iter + 1) calls1))
      else Inr (h, calls))"
  by pat_completeness auto
termination
proof (relation "measure (\<lambda>(cb, h, prevLL, iter, calls). nat (maxIter h - int iter))")
  fix cb :: bool and h h1 :: hmm and prevLL :: "real option" and iter :: nat
    and calls calls1 :: "call list" and x :: "hmm \<times> real" and logLik :: real
    and delta :: "real option"
  assume "int iter < maxIter h" and "em_iteration h iter = Inr x" and "(h1, logLik) = x"
  then have "maxIter h1 = maxIter h"
    by (auto dest: em_iteration_maxIter)
  with \<open>int iter < maxIter h\<close>
  show "((cb, h1, Some logLik, iter + 1, calls1), (cb, h, prevLL, iter, calls))
          \<in> measure (\<lambda>(cb, h, prevLL, iter, calls). nat (maxIter h - int iter))"
    by simp
qed simp

declare train_loop.simps [simp del]

definition train :: "bool \<Rightarrow> hmm \<Rightarrow> error + (hmm \<times> call list)" where
  "train cb h =
     (case train_loop cb h None 0 [] of
        Inl e \<Rightarrow> Inl e
      | Inr (h', calls) \<Rightarrow>
          if \<not> converged h' then
            (case final_pass h' of Inl e \<Rightarrow> Inl e | Inr h'' \<Rightarrow> Inr (h'', calls))
          else Inr (h', calls))"


subsection \<open>Notions for the statements and their proofs\<close>

text \<open>The finite values of an array, and \<open>exp\<close> on the numbers with \<open>exp(-\<infinity>) = 0\<close>
  (on \<open>+\<infinity>\<close>, which no statement below reaches, the value is 0).\<close>

fun fin_vals :: "num list \<Rightarrow> real list" where
  "fin_vals [] = []"
| "fin_vals (Num a # xs) = a # fin_vals xs"
| "fin_vals (x # xs) = fin_vals xs"

fun exp_num :: "num \<Rightarrow> real" where
  "exp_num (Num a) = exp a"
| "exp_num x = 0"

text \<open>The first loop of \<^verbatim>\<open>logSumExp\<close>, from a running maximum \<open>m\<close>.\<close>

definition max_loop :: "num \<Rightarrow> num list \<Rightarrow> num" where
  "max_loop m arr = foldl (\<lambda>max x. if num_gt x max then x else max) m arr"

text \<open>The forward recursion as the specification writes it: the value of \<open>alpha[t][j]\<close>
  before the row is scaled, from the scaled row \<open>alpha[t - 1]\<close>.\<close>

definition alpha_unscaled :: "hmm \<Rightarrow> real list list \<Rightarrow> nat \<Rightarrow> nat \<Rightarrow> real" where
  "alpha_unscaled h alpha t j =
     (if t = 0 then hmm_pi h ! j * emit h j 0
      else (\<Sum>i<nat (hmm_N h). alpha ! (t - 1) ! i * hmm_A h ! i ! j) * emit h j t)"

text \<open>The rows and factors that \<^verbatim>\<open>_forward\<close> builds, and its loop for the
  log-likelihood.\<close>

definition forward_rows :: "hmm \<Rightarrow> (real list \<times> real) list" where
  "forward_rows h =
     (let raw = alpha_first h; c0 = scale_factor raw; row = map (\<lambda>x. x * c0) raw
      in (row, c0) # forward_loop h 1 row)"

definition logLik_loop :: "hmm \<Rightarrow> real list \<Rightarrow> real" where
  "logLik_loop h c = foldl (\<lambda>logLik t. logLik - log_floor (c ! t)) 0 [0..<hmm_T h]"

text \<open>The transition occupancy before the slice is normalised.\<close>

definition xi_unscaled ::
  "hmm \<Rightarrow> real list list \<Rightarrow> real list list \<Rightarrow> nat \<Rightarrow> nat \<Rightarrow> nat \<Rightarrow> real" where
  "xi_unscaled h alpha beta t i j =
     alpha ! t ! i * hmm_A h ! i ! j * emit h j (t + 1) * beta ! (t + 1) ! j"

text \<open>Every row of \<open>pi\<close>, \<open>A\<close> and \<open>B\<close> sums to 1; no entry of them is zero.\<close>

definition row_stochastic :: "hmm \<Rightarrow> bool" where
  "row_stochastic h \<longleftrightarrow>
     sum_list (hmm_pi h) = 1 \<and> (\<forall>r \<in> set (hmm_A h). sum_list r = 1)
     \<and> (\<forall>r \<in> set (hmm_B h). sum_list r = 1)"

definition no_zero_entry :: "hmm \<Rightarrow> bool" where
  "no_zero_entry h \<longleftrightarrow>
     0 \<notin> set (hmm_pi h) \<and> (\<forall>r \<in> set (hmm_A h). 0 \<notin> set r) \<and> (\<forall>r \<in> set (hmm_B h). 0 \<notin> set r)"

text \<open>The instances that iterations of the training loop (each ending in an M-step) make
  of an instance \<open>h0\<close>.\<close>

inductive em_reachable :: "hmm \<Rightarrow> hmm \<Rightarrow> bool" for h0 :: hmm where
  start: "em_reachable h0 h0"
| step: "em_reachable h0 h \<Longrightarrow> em_iteration h iter = Inr (h', logLik) \<Longrightarrow> em_reachable h0 h'"

text \<open>The invariant of training on a usable input: at least two observations, one of them
  a symbol below \<open>M\<close>, at least one state, \<open>pi\<close> and \<open>A\<close> positive, \<open>B\<close> non-negative, all of
  the declared sizes.\<close>

definition positive_model :: "hmm \<Rightarrow> bool" where
  "positive_model h \<longleftrightarrow>
     hmm_T h = length (hmm_O h) \<and> 2 \<le> hmm_T h \<and> 1 \<le> hmm_N h
     \<and> (\<exists>t<hmm_T h. 0 \<le> hmm_O h ! t \<and> hmm_O h ! t < hmm_M h)
     \<and> length (hmm_pi h) = nat (hmm_N h) \<and> (\<forall>i<nat (hmm_N h). 0 < hmm_pi h ! i)
     \<and> length (hmm_A h) = nat (hmm_N h)
     \<and> (\<forall>i<nat (hmm_N h). length (hmm_A h ! i) = nat (hmm_N h) \<and> (\<forall>j<nat (hmm_N h). 0 < hmm_A h ! i ! j))
     \<and> length (hmm_B h) = nat (hmm_N h)
     \<and> (\<forall>i<nat (hmm_N h). length (hmm_B h ! i) = nat (hmm_M h) \<and> (\<forall>k<nat (hmm_M h). 0 \<le> hmm_B h ! i ! k))"

text \<open>The parts of the loop body of \<^verbatim>\<open>train\<close>: the test of line 289, and the two calls of
  the callback (lines 286-287 and 296).\<close>

definition converges :: "nat \<Rightarrow> real option \<Rightarrow> real \<Rightarrow> real \<Rightarrow> bool" where
  "converges iter prevLL logLik eps \<longleftrightarrow>
     0 < iter \<and> (case map_option ((-) logLik) prevLL of None \<Rightarrow> False | Some d \<Rightarrow> \<bar>d\<bar> < eps)"

definition iter_call :: "bool \<Rightarrow> call list \<Rightarrow> nat \<Rightarrow> real \<Rightarrow> real option \<Rightarrow> call list" where
  "iter_call cb calls iter logLik prevLL =
     (if cb then calls @ [(IterMsg (iter + 1) logLik (map_option ((-) logLik) prevLL), iter, None)]
      else calls)"

definition done_call :: "bool \<Rightarrow> call list \<Rightarrow> nat \<Rightarrow> call list" where
  "done_call cb calls iter =
     (if cb then calls @ [(ConvergedMsg (iter + 1), iter, Some True)] else calls)"

text \<open>A two-state instance over two symbols, for the examples.\<close>

definition example_hmm :: hmm where
  "example_hmm =
     \<lparr> hmm_O = [0, 1], hmm_T = 2, hmm_N = 2, hmm_M = 2, maxIter = 100, epsilon = 1 / 10 ^ 6,
       hmm_pi = [1 / 2, 1 / 2], hmm_A = [[1 / 2, 1 / 2], [1 / 4, 3 / 4]],
       hmm_B = [[1 / 2, 1 / 2], [3 / 4, 1 / 4]],
       logLikeHistory = [], iterations = 0, converged = False,
       finalAlpha = None, finalGamma = None \<rparr>"

text \<open>Two instances with the same observations, sizes and parameters; the passes read
  nothing else of an instance.\<close>

definition same_model :: "hmm \<Rightarrow> hmm \<Rightarrow> bool" where
  "same_model h h' \<longleftrightarrow>
     hmm_O h' = hmm_O h \<and> hmm_T h' = hmm_T h \<and> hmm_N h' = hmm_N h \<and> hmm_M h' = hmm_M h
     \<and> hmm_pi h' = hmm_pi h \<and> hmm_A h' = hmm_A h \<and> hmm_B h' = hmm_B h"

text \<open>\<open>finalAlpha\<close> and \<open>finalGamma\<close> are what a forward, backward and E-step pass on the
  parameters of the instance itself returns.\<close>

definition final_artifacts :: "hmm \<Rightarrow> bool" where
  "final_artifacts h \<longleftrightarrow>
     (\<exists>f fb fg. forward h = Inr f \<and> backward h (fwd_c f) = Inr fb
        \<and> estep h (fwd_alpha f) fb = Inr fg
        \<and> finalAlpha h = Some (fwd_logAlpha f) \<and> finalGamma h = Some (fst fg))"

text \<open>The test of line 289 on the history, at the end of iteration number \<open>k\<close> (counted
  from 1), and the status calls of the first \<open>n\<close> iterations.\<close>

definition fires :: "real \<Rightarrow> real list \<Rightarrow> nat \<Rightarrow> bool" where
  "fires eps H k \<longleftrightarrow> 2 \<le> k \<and> \<bar>H ! (k - 1) - H ! (k - 2)\<bar> < eps"

definition iter_calls :: "bool \<Rightarrow> real list \<Rightarrow> nat \<Rightarrow> call list" where
  "iter_calls cb H n =
     (if cb then map (\<lambda>k. (IterMsg (k + 1) (H ! k) (if k = 0 then None else Some (H ! k - H ! (k - 1))),
                           k, None)) [0..<n]
      else [])"

text \<open>Invariant and result of the loop of \<^verbatim>\<open>train\<close>, started on a fresh instance.\<close>

definition loop_inv :: "bool \<Rightarrow> hmm \<Rightarrow> real option \<Rightarrow> nat \<Rightarrow> call list \<Rightarrow> bool" where
  "loop_inv cb h prevLL iter calls \<longleftrightarrow>
     length (logLikeHistory h) = iter \<and> iterations h = iter \<and> \<not> converged h
     \<and> prevLL = (if iter = 0 then None else Some (logLikeHistory h ! (iter - 1)))
     \<and> calls = iter_calls cb (logLikeHistory h) iter
     \<and> (\<forall>k\<le>iter. \<not> fires (epsilon h) (logLikeHistory h) k)"

definition loop_post :: "bool \<Rightarrow> hmm \<Rightarrow> nat \<Rightarrow> hmm \<Rightarrow> call list \<Rightarrow> bool" where
  "loop_post cb h iter h' calls' \<longleftrightarrow>
     length (logLikeHistory h') = iterations h' \<and> epsilon h' = epsilon h \<and> maxIter h' = maxIter h
     \<and> iter \<le> iterations h'
     \<and> (\<forall>k<iterations h'. \<not> fires (epsilon h) (logLikeHistory h') k)
     \<and> (if converged h'
        then fires (epsilon h) (logLikeHistory h') (iterations h')
           \<and> int (iterations h') \<le> maxIter h
           \<and> calls' = done_call cb (iter_calls cb (logLikeHistory h') (iterations h')) (iterations h' - 1)
           \<and> final_artifacts h'
        else \<not> fires (epsilon h) (logLikeHistory h') (iterations h')
           \<and> int (iterations h') = max (int iter) (maxIter h)
           \<and> calls' = iter_calls cb (logLikeHistory h') (iterations h')
           \<and> finalAlpha h' = finalAlpha h \<and> finalGamma h' = finalGamma h)"

text \<open>The single-state model on three observations of the one symbol: the scenario of the
  specification in which \<open>A\<close> is \<open>[[1]]\<close> and \<open>pi\<close> is \<open>[1]\<close>.\<close>

definition single_state :: "hmm \<Rightarrow> bool" where
  "single_state h \<longleftrightarrow>
     hmm_O h = [0, 0, 0] \<and> hmm_T h = 3 \<and> hmm_N h = 1 \<and> hmm_M h = 1
     \<and> hmm_pi h = [1] \<and> hmm_A h = [[1]] \<and> hmm_B h = [[1]]"

definition single_state_hmm :: "int \<Rightarrow> hmm" where
  "single_state_hmm cap =
     \<lparr> hmm_O = [0, 0, 0], hmm_T = 3, hmm_N = 1, hmm_M = 1,
       maxIter = cap, epsilon = 1 / 10 ^ 6,
       hmm_pi = [1], hmm_A = [[1]], hmm_B = [[1]],
       logLikeHistory = [], iterations = 0, converged = False,
       finalAlpha = None, finalGamma = None \<rparr>"

section \<open>Properties\<close>

subsection \<open>Accumulating loops are sums\<close>

lemma foldl_plus_sum_list: "foldl (+) a xs = a + sum_list (xs :: real list)"
  by (induction xs arbitrary: a) simp_all

lemma foldl_add_sum_list:
  "foldl (\<lambda>acc x. acc + f x) a xs = a + sum_list (map f xs)" for a :: real
  by (induction xs arbitrary: a) simp_all

subsection \<open>Construction\<close>

lemma length_draw_row: "draw_row k g = (xs, g') \<Longrightarrow> length xs = k"
  by (induction k arbitrary: g xs g') (auto split: prod.splits)

lemma length_randRow: "randRow k g = (r, g') \<Longrightarrow> length r = nat k"
  by (auto simp: randRow_def Let_def split: prod.splits dest: length_draw_row)

lemma length_randRows: "randRows n k g = (rs, g') \<Longrightarrow> length rs = n"
  by (induction n arbitrary: g rs g') (auto split: prod.splits)

lemma randRows_row_length: "randRows n k g = (rs, g') \<Longrightarrow> r \<in> set rs \<Longrightarrow> length r = nat k"
  by (induction n arbitrary: g rs g') (auto split: prod.splits dest: length_randRow)

lemma HMM_new_fields:
  "\<exists>h. HMM_new obs N M opts = Inr h \<and> hmm_O h = obs \<and> hmm_T h = length obs \<and> hmm_N h = N
       \<and> hmm_M h = M \<and> length (hmm_B h) = nat N \<and> (\<forall>r \<in> set (hmm_B h). length r = nat M)"
  by (auto simp: HMM_new_def split: prod.splits dest: length_randRows randRows_row_length)





subsection \<open>logSumExp\<close>

lemma max_loop_Num:
  "PInf \<notin> set arr \<Longrightarrow> max_loop (Num m) arr = Num (Max (insert m (set (fin_vals arr))))"
proof (induction arr arbitrary: m)
  case Nil
  then show ?case by (simp add: max_loop_def)
next
  case (Cons x arr)
  show ?case
  proof (cases x)
    case MInf
    with Cons show ?thesis by (simp add: max_loop_def)
  next
    case (Num a)
    have fin: "finite (insert m (set (fin_vals arr)))" by simp
    have "max_loop (Num m) (x # arr) = max_loop (Num (max a m)) arr"
      using Num by (simp add: max_loop_def max_def)
    also have "\<dots> = Num (Max (insert (max a m) (set (fin_vals arr))))"
      using Cons by simp
    also have "Max (insert (max a m) (set (fin_vals arr))) = Max (insert m (set (fin_vals (x # arr))))"
      using Num by (cases "fin_vals arr = []") (simp_all add: max.assoc max.commute max.left_commute)
    finally show ?thesis .
  next
    case PInf
    with Cons show ?thesis by simp
  qed
qed

lemma max_loop_MInf:
  "PInf \<notin> set arr \<Longrightarrow>
     max_loop MInf arr = (if fin_vals arr = [] then MInf else Num (Max (set (fin_vals arr))))"
proof (induction arr)
  case Nil
  then show ?case by (simp add: max_loop_def)
next
  case (Cons x arr)
  show ?case
  proof (cases x)
    case MInf
    with Cons show ?thesis by (simp add: max_loop_def)
  next
    case (Num a)
    have "max_loop MInf (x # arr) = max_loop (Num a) arr"
      using Num by (simp add: max_loop_def)
    then show ?thesis
      using Cons.prems Num max_loop_Num [of arr a] by simp
  next
    case PInf
    with Cons show ?thesis by simp
  qed
qed

lemma num_gt_PInf: "\<not> num_gt a PInf"
  by (cases a) simp_all

lemma max_loop_PInf: "max_loop PInf arr = PInf"
  by (induction arr) (simp_all add: max_loop_def num_gt_PInf)

lemma max_loop_finite:
  "max_loop m0 arr = Num m \<Longrightarrow> PInf \<notin> set arr"
proof (induction arr arbitrary: m0)
  case Nil
  then show ?case by simp
next
  case (Cons x arr)
  have step: "max_loop m0 (x # arr) = max_loop (if num_gt x m0 then x else m0) arr"
    by (simp add: max_loop_def)
  have "x \<noteq> PInf"
  proof
    assume "x = PInf"
    then have "(if num_gt x m0 then x else m0) = PInf"
      by (cases m0) simp_all
    with step Cons.prems show False
      by (simp add: max_loop_PInf)
  qed
  moreover have "PInf \<notin> set arr"
    using Cons.IH step Cons.prems by metis
  ultimately show ?case by simp
qed

lemma exp_minus_exp_num: "exp_minus x m = exp_num x * exp (- m)"
  by (cases x) (simp_all add: exp_diff exp_minus field_simps)

lemma sum_exp_minus:
  "(\<Sum>x\<leftarrow>arr. exp_minus x m) = (\<Sum>x\<leftarrow>arr. exp_num x) * exp (- m)"
  by (induction arr) (simp_all add: exp_minus_exp_num algebra_simps)

lemma exp_num_nonneg: "0 \<le> exp_num x"
  by (cases x) simp_all

lemma sum_exp_num_pos: "fin_vals arr \<noteq> [] \<Longrightarrow> 0 < (\<Sum>x\<leftarrow>arr. exp_num x)"
proof (induction arr)
  case Nil
  then show ?case by simp
next
  case (Cons x arr)
  have "0 \<le> (\<Sum>x\<leftarrow>arr. exp_num x)"
    by (rule sum_list_nonneg) (auto simp: exp_num_nonneg)
  then show ?case
    using Cons by (cases x) (auto simp: add_pos_nonneg)
qed

lemma logSumExp_unfold:
  "logSumExp arr = (case max_loop MInf arr of
       Num m \<Rightarrow> Num (m + ln (\<Sum>x\<leftarrow>arr. exp_minus x m)) | MInf \<Rightarrow> MInf | PInf \<Rightarrow> MInf)"
  by (simp add: logSumExp_def max_loop_def foldl_add_sum_list split: num.splits)

text \<open>
  Claim C9. For an array of reals that may hold \<open>-\<infinity>\<close>, \<^verbatim>\<open>logSumExp\<close> returns
  \<open>max + log (\<Sum> exp (x\<^sub>i - max))\<close> for \<open>max\<close> the greatest finite value of the array, which
  is \<open>log (\<Sum> exp x\<^sub>i)\<close>; it returns \<open>-\<infinity>\<close> when the array is empty or holds nothing but
  \<open>-\<infinity>\<close>; and \<open>logSumExp [x] = x\<close> for a finite \<open>x\<close>.
\<close>

theorem logSumExp_stable:
  assumes "PInf \<notin> set arr"
  shows "logSumExp arr =
           (if fin_vals arr = [] then MInf
            else Num (Max (set (fin_vals arr))
                      + ln (\<Sum>x\<leftarrow>arr. exp_minus x (Max (set (fin_vals arr))))))
         \<and> (fin_vals arr \<noteq> [] \<longrightarrow> logSumExp arr = Num (ln (\<Sum>x\<leftarrow>arr. exp_num x)))
         \<and> (set arr \<subseteq> {MInf} \<longrightarrow> logSumExp arr = MInf)
         \<and> logSumExp [] = MInf
         \<and> logSumExp [Num x] = Num x"
proof -
  let ?m = "Max (set (fin_vals arr))"
  have first: "logSumExp arr =
      (if fin_vals arr = [] then MInf else Num (?m + ln (\<Sum>x\<leftarrow>arr. exp_minus x ?m)))"
    using assms by (simp add: logSumExp_unfold max_loop_MInf)
  have second: "logSumExp arr = Num (ln (\<Sum>x\<leftarrow>arr. exp_num x))" if "fin_vals arr \<noteq> []"
  proof -
    have pos: "0 < (\<Sum>x\<leftarrow>arr. exp_num x)"
      using that by (rule sum_exp_num_pos)
    have "?m + ln (\<Sum>x\<leftarrow>arr. exp_minus x ?m) = ?m + ln ((\<Sum>x\<leftarrow>arr. exp_num x) * exp (- ?m))"
      by (simp add: sum_exp_minus)
    also have "\<dots> = ln (\<Sum>x\<leftarrow>arr. exp_num x)"
      using pos by (simp add: ln_mult)
    finally show ?thesis
      using first that by simp
  qed
  have third: "logSumExp arr = MInf" if "set arr \<subseteq> {MInf}"
  proof -
    have "fin_vals arr = []"
      using that by (induction arr) auto
    with first show ?thesis by simp
  qed
  have "logSumExp [] = MInf"
    by (simp add: logSumExp_def)
  moreover have "logSumExp [Num x] = Num x"
    by (simp add: logSumExp_def)
  ultimately show ?thesis
    using first second third by blast
qed

theorem logSumExp_stable_witness:
  "PInf \<notin> set [Num 2, MInf, Num 2] \<and> logSumExp [Num 2, MInf, Num 2] = Num (2 + ln 2)
   \<and> logSumExp [MInf, MInf] = MInf"
proof -
  have a: "PInf \<notin> set [Num 2, MInf, Num 2]" and b: "PInf \<notin> set [MInf, MInf]"
    by simp_all
  have "logSumExp [Num 2, MInf, Num 2] = Num (2 + ln 2)"
    using logSumExp_stable [OF a] by simp
  moreover have "logSumExp [MInf, MInf] = MInf"
    using logSumExp_stable [OF b] by simp
  ultimately show ?thesis using a by simp
qed

subsection \<open>Forward pass\<close>

lemma foldl_upt_sum:
  "foldl (\<lambda>acc i. acc + f i) 0 [0..<n] = (\<Sum>i<n. f i)" for f :: "nat \<Rightarrow> real"
  by (simp add: foldl_add_sum_list interv_sum_list_conv_sum_set_nat atLeast0LessThan)

lemma foldl_plus_map_upt:
  "foldl (+) 0 (map f [0..<n]) = (\<Sum>i<n. f i)" for f :: "nat \<Rightarrow> real"
  by (simp add: foldl_plus_sum_list interv_sum_list_conv_sum_set_nat atLeast0LessThan)

lemma scale_factor_pos: "0 < scale_factor row"
  by (simp add: scale_factor_def Let_def)

lemma length_forward_loop: "length (forward_loop h t prev) = hmm_T h - t"
proof (induction h t prev rule: forward_loop.induct)
  case (1 h t prev)
  show ?case
  proof (cases "t < hmm_T h")
    case True
    then show ?thesis
      using "1.IH" [OF True refl refl refl]
      by (subst forward_loop.simps) (simp add: Let_def)
  next
    case False
    then show ?thesis
      by (subst forward_loop.simps) simp
  qed
qed

text \<open>Entry \<open>k\<close> of the loop's result is computed from the row before it.\<close>

lemma forward_loop_nth:
  "k < hmm_T h - t \<Longrightarrow>
     forward_loop h t prev ! k =
       (let raw = alpha_next h (if k = 0 then prev else fst (forward_loop h t prev ! (k - 1))) (t + k)
        in (map (\<lambda>x. x * scale_factor raw) raw, scale_factor raw))"
proof (induction h t prev arbitrary: k rule: forward_loop.induct)
  case (1 h t prev)
  then have lt: "t < hmm_T h" by simp
  define raw where "raw = alpha_next h prev t"
  define row where "row = map (\<lambda>x. x * scale_factor raw) raw"
  have unfold: "forward_loop h t prev = (row, scale_factor raw) # forward_loop h (t + 1) row"
    using lt by (subst forward_loop.simps) (simp add: Let_def raw_def row_def)
  show ?case
  proof (cases k)
    case 0
    then show ?thesis
      by (simp add: unfold Let_def raw_def row_def)
  next
    case (Suc k')
    have k': "k' < hmm_T h - (t + 1)"
      using "1.prems" Suc by simp
    have IH: "forward_loop h (t + 1) row ! k' =
       (let raw = alpha_next h (if k' = 0 then row else fst (forward_loop h (t + 1) row ! (k' - 1)))
                    (t + 1 + k')
        in (map (\<lambda>x. x * scale_factor raw) raw, scale_factor raw))"
      using "1.IH" [OF lt refl refl refl k']
      by (simp add: raw_def row_def)
    have prev_eq: "fst (forward_loop h t prev ! (k - 1))
        = (if k' = 0 then row else fst (forward_loop h (t + 1) row ! (k' - 1)))"
      using Suc by (cases k') (simp_all add: unfold)
    show ?thesis
      using Suc IH prev_eq by (simp add: unfold)
  qed
qed

lemma forward_fields:
  assumes "forward h = Inr f" and "0 < hmm_T h"
  shows "fwd_alpha f = map fst (forward_rows h)" and "fwd_c f = map snd (forward_rows h)"
    and "fwd_logLik f = logLik_loop h (fwd_c f)" and "0 \<le> hmm_N h"
  using assms
  by (auto simp: forward_def forward_rows_def logLik_loop_def Let_def split: if_splits)

lemma length_forward_rows: "0 < hmm_T h \<Longrightarrow> length (forward_rows h) = hmm_T h"
  by (simp add: forward_rows_def Let_def length_forward_loop)

lemma forward_rows_nth:
  assumes "t < hmm_T h"
  shows "forward_rows h ! t =
    (let raw = (if t = 0 then alpha_first h else alpha_next h (fst (forward_rows h ! (t - 1))) t)
     in (map (\<lambda>x. x * scale_factor raw) raw, scale_factor raw))"
proof (cases t)
  case 0
  then show ?thesis by (simp add: forward_rows_def Let_def)
next
  case (Suc k)
  define row where "row = map (\<lambda>x. x * scale_factor (alpha_first h)) (alpha_first h)"
  have rows: "forward_rows h = (row, scale_factor (alpha_first h)) # forward_loop h 1 row"
    by (simp add: forward_rows_def Let_def row_def)
  have "k < hmm_T h - 1"
    using assms Suc by simp
  from forward_loop_nth [OF this, of row]
  have "forward_loop h 1 row ! k =
       (let raw = alpha_next h (if k = 0 then row else fst (forward_loop h 1 row ! (k - 1))) (Suc k)
        in (map (\<lambda>x. x * scale_factor raw) raw, scale_factor raw))"
    by simp
  moreover have "(if k = 0 then row else fst (forward_loop h 1 row ! (k - 1))) = fst (forward_rows h ! k)"
    by (cases k) (simp_all add: rows)
  ultimately show ?thesis
    using Suc by (simp add: rows)
qed

lemma length_alpha_first: "length (alpha_first h) = nat (hmm_N h)"
  by (simp add: alpha_first_def)

lemma length_alpha_next: "length (alpha_next h prev t) = nat (hmm_N h)"
  by (simp add: alpha_next_def)

lemma forward_raw_row:
  assumes "forward h = Inr f" and "t < hmm_T h"
  shows "(if t = 0 then alpha_first h else alpha_next h (fst (forward_rows h ! (t - 1))) t)
           = map (alpha_unscaled h (fwd_alpha f) t) [0..<nat (hmm_N h)]"
proof (cases t)
  case 0
  then show ?thesis
    by (simp add: alpha_first_def alpha_unscaled_def)
next
  case (Suc k)
  have "fst (forward_rows h ! k) = fwd_alpha f ! k"
    using assms Suc forward_fields(1) [OF assms(1)] length_forward_rows [of h] by simp
  then show ?thesis
    using Suc by (simp add: alpha_next_def alpha_unscaled_def foldl_upt_sum)
qed

lemma scale_factor_map_upt:
  "scale_factor (map g [0..<n]) = (if (\<Sum>j<n. g j) > 0 then 1 / (\<Sum>j<n. g j) else 1)"
  by (simp add: scale_factor_def Let_def foldl_plus_map_upt)

lemma forward_row:
  assumes "forward h = Inr f" and "t < hmm_T h"
  shows "fwd_c f ! t = scale_factor (map (alpha_unscaled h (fwd_alpha f) t) [0..<nat (hmm_N h)])"
    and "fwd_alpha f ! t = map (\<lambda>j. alpha_unscaled h (fwd_alpha f) t j * fwd_c f ! t) [0..<nat (hmm_N h)]"
proof -
  have T: "0 < hmm_T h" using assms(2) by simp
  note ff = forward_fields [OF assms(1) T]
  have nth: "forward_rows h ! t =
      (let raw = map (alpha_unscaled h (fwd_alpha f) t) [0..<nat (hmm_N h)]
       in (map (\<lambda>x. x * scale_factor raw) raw, scale_factor raw))"
    using forward_rows_nth [OF assms(2)] forward_raw_row [OF assms] by simp
  show c: "fwd_c f ! t = scale_factor (map (alpha_unscaled h (fwd_alpha f) t) [0..<nat (hmm_N h)])"
    using ff(2) nth assms(2) length_forward_rows [OF T] by (simp add: Let_def)
  show "fwd_alpha f ! t = map (\<lambda>j. alpha_unscaled h (fwd_alpha f) t j * fwd_c f ! t) [0..<nat (hmm_N h)]"
    using ff(1) nth assms(2) length_forward_rows [OF T] c by (simp add: Let_def)
qed

lemma forward_c_pos:
  assumes "forward h = Inr f" and "t < hmm_T h"
  shows "0 < fwd_c f ! t"
  using forward_row(1) [OF assms] scale_factor_pos by simp

lemma logLik_loop_sum:
  assumes "\<forall>t<hmm_T h. 0 < c ! t"
  shows "logLik_loop h c = - (\<Sum>t<hmm_T h. ln (c ! t))"
proof -
  have "logLik_loop h c = - (\<Sum>t<hmm_T h. log_floor (c ! t))"
  proof -
    have "foldl (\<lambda>l t. l - g t) a ts = a - sum_list (map g ts)" for g :: "nat \<Rightarrow> real" and a ts
      by (induction ts arbitrary: a) simp_all
    then show ?thesis
      by (simp add: logLik_loop_def interv_sum_list_conv_sum_set_nat atLeast0LessThan)
  qed
  also have "(\<Sum>t<hmm_T h. log_floor (c ! t)) = (\<Sum>t<hmm_T h. ln (c ! t))"
    using assms by (intro sum.cong) (simp_all add: log_floor_def)
  finally show ?thesis .
qed

lemma forward_row_spec:
  assumes "forward h = Inr f" and "t < hmm_T h" and "j < nat (hmm_N h)"
  shows "let S = (\<Sum>j<nat (hmm_N h). alpha_unscaled h (fwd_alpha f) t j) in
           fwd_c f ! t = (if S > 0 then 1 / S else 1)
         \<and> fwd_alpha f ! t ! j = alpha_unscaled h (fwd_alpha f) t j * fwd_c f ! t
         \<and> (S > 0 \<longrightarrow> fwd_alpha f ! t ! j = alpha_unscaled h (fwd_alpha f) t j / S
                    \<and> (\<Sum>j<nat (hmm_N h). fwd_alpha f ! t ! j) = 1)
         \<and> length (fwd_alpha f) = hmm_T h \<and> length (fwd_c f) = hmm_T h
         \<and> length (fwd_alpha f ! t) = nat (hmm_N h)
         \<and> fwd_logLik f = - (\<Sum>t<hmm_T h. ln (fwd_c f ! t))
         \<and> emit h j t = (case Option.bind (js_get (hmm_O h) (int t)) (js_get (hmm_B h ! j)) of
                          None \<Rightarrow> tiny | Some b \<Rightarrow> if b = 0 then tiny else b)
         \<and> 0 < tiny"
proof -
  define S where "S = (\<Sum>j<nat (hmm_N h). alpha_unscaled h (fwd_alpha f) t j)"
  have T: "0 < hmm_T h" using assms(2) by simp
  note ff = forward_fields [OF assms(1) T]
  note row = forward_row [OF assms(1,2)]
  have c: "fwd_c f ! t = (if S > 0 then 1 / S else 1)"
    using row(1) by (simp add: scale_factor_map_upt S_def)
  have a: "fwd_alpha f ! t ! j = alpha_unscaled h (fwd_alpha f) t j * fwd_c f ! t"
    using row(2) assms(3) by simp
  have norm: "fwd_alpha f ! t ! j = alpha_unscaled h (fwd_alpha f) t j / S
       \<and> (\<Sum>j<nat (hmm_N h). fwd_alpha f ! t ! j) = 1" if "S > 0"
  proof -
    have "(\<Sum>j<nat (hmm_N h). fwd_alpha f ! t ! j)
        = (\<Sum>j<nat (hmm_N h). alpha_unscaled h (fwd_alpha f) t j * (1 / S))"
      using row(2) c that by (intro sum.cong) simp_all
    also have "\<dots> = S * (1 / S)"
      by (simp only: S_def sum_distrib_right)
    finally show ?thesis
      using a c that by simp
  qed
  have len: "length (fwd_alpha f) = hmm_T h" "length (fwd_c f) = hmm_T h"
    using ff(1,2) length_forward_rows [OF T] by simp_all
  have lenrow: "length (fwd_alpha f ! t) = nat (hmm_N h)"
    using row(2) by simp
  have ll: "fwd_logLik f = - (\<Sum>t<hmm_T h. ln (fwd_c f ! t))"
    using ff(3) logLik_loop_sum [of h "fwd_c f"] forward_c_pos [OF assms(1)] by simp
  have e: "emit h j t = (case Option.bind (js_get (hmm_O h) (int t)) (js_get (hmm_B h ! j)) of
                          None \<Rightarrow> tiny | Some b \<Rightarrow> if b = 0 then tiny else b)"
    by (simp add: emit_def js_or_def)
  have "0 < tiny" by (simp add: tiny_def)
  with c a norm len lenrow ll e show ?thesis
    unfolding S_def [symmetric] Let_def by blast
qed

subsection \<open>Backward pass\<close>

lemma length_backward_loop: "length (backward_loop h c k nxt) = k"
  by (induction k arbitrary: nxt) (simp_all add: Let_def)

lemma backward_loop_nth:
  "t < k \<Longrightarrow>
     backward_loop h c k nxt ! t
       = beta_prev h c t (if Suc t = k then nxt else backward_loop h c k nxt ! Suc t)"
proof (induction k arbitrary: nxt)
  case 0
  then show ?case by simp
next
  case (Suc k)
  define row where "row = beta_prev h c k nxt"
  have unfold: "backward_loop h c (Suc k) nxt = backward_loop h c k row @ [row]"
    by (simp add: Let_def row_def)
  show ?case
  proof (cases "t = k")
    case True
    then show ?thesis
      by (simp add: Let_def nth_append length_backward_loop)
  next
    case False
    then have t: "t < k" using Suc.prems by simp
    have "backward_loop h c (Suc k) nxt ! t = backward_loop h c k row ! t"
      using t by (simp add: Let_def row_def nth_append length_backward_loop)
    also have "\<dots> = beta_prev h c t (if Suc t = k then row else backward_loop h c k row ! Suc t)"
      using Suc.IH [OF t] .
    also have "(if Suc t = k then row else backward_loop h c k row ! Suc t)
        = backward_loop h c (Suc k) nxt ! Suc t"
      using t by (auto simp: Let_def row_def nth_append length_backward_loop)
    finally show ?thesis
      using t by simp
  qed
qed

lemma backward_rows:
  assumes "backward h c = Inr beta" and "0 < hmm_T h"
  shows "length beta = hmm_T h"
    and "beta ! (hmm_T h - 1) = replicate (nat (hmm_N h)) (c ! (hmm_T h - 1))"
    and "t + 1 < hmm_T h \<Longrightarrow> beta ! t = beta_prev h c t (beta ! (t + 1))"
proof -
  define last where "last = replicate (nat (hmm_N h)) (c ! (hmm_T h - 1))"
  have beta: "beta = backward_loop h c (hmm_T h - 1) last @ [last]"
    using assms by (auto simp: backward_def Let_def last_def split: if_splits)
  show "length beta = hmm_T h"
    using assms(2) by (simp add: beta length_backward_loop)
  show "beta ! (hmm_T h - 1) = replicate (nat (hmm_N h)) (c ! (hmm_T h - 1))"
    by (simp add: beta nth_append length_backward_loop last_def)
  show "beta ! t = beta_prev h c t (beta ! (t + 1))" if "t + 1 < hmm_T h"
  proof -
    have t: "t < hmm_T h - 1" using that by simp
    have "beta ! t = backward_loop h c (hmm_T h - 1) last ! t"
      using t by (simp add: beta nth_append length_backward_loop)
    also have "\<dots> = beta_prev h c t
        (if Suc t = hmm_T h - 1 then last else backward_loop h c (hmm_T h - 1) last ! Suc t)"
      by (rule backward_loop_nth [OF t])
    also have "(if Suc t = hmm_T h - 1 then last else backward_loop h c (hmm_T h - 1) last ! Suc t)
        = beta ! (t + 1)"
      using t by (auto simp: beta nth_append length_backward_loop)
    finally show ?thesis .
  qed
qed

lemma em_iteration_pipeline:
  assumes "em_iteration h iter = Inr (h1, logLik)"
  shows "\<exists>f beta gamma xi. forward h = Inr f \<and> backward h (fwd_c f) = Inr beta
           \<and> estep h (fwd_alpha f) beta = Inr (gamma, xi)
           \<and> mstep h gamma xi = Inr (hmm_pi h1, hmm_A h1, hmm_B h1)
           \<and> logLik = fwd_logLik f
           \<and> h1 = h\<lparr> hmm_pi := hmm_pi h1, hmm_A := hmm_A h1, hmm_B := hmm_B h1,
                     logLikeHistory := logLikeHistory h @ [logLik], iterations := iter + 1 \<rparr>"
  using assms by (auto simp: em_iteration_def split: sum.splits prod.splits)

text \<open>
  Claim C3. The backward pass computes \<open>beta\<close> from the factors \<open>c\<close> it is given, and
  computes none of its own: \<open>beta[T-1][i] = c[T-1]\<close>, and for \<open>t\<close> from \<open>T - 2\<close> down to 0
  \<open>beta[t][i] = (\<Sum>\<^sub>j A[i][j] * b\<^sub>j(O[t+1]) * beta[t+1][j]) * c[t]\<close> with the floored emission
  \<open>b\<close> of the forward pass. In an iteration of training the factors given are those the
  forward pass of that iteration returned.
\<close>

theorem backward_scaled_recursion:
  assumes "backward h c = Inr beta" and "i < nat (hmm_N h)"
  shows "length beta = hmm_T h
       \<and> beta ! (hmm_T h - 1) ! i = c ! (hmm_T h - 1)
       \<and> (\<forall>t. t + 1 < hmm_T h \<longrightarrow>
            beta ! t ! i = (\<Sum>j<nat (hmm_N h). hmm_A h ! i ! j * emit h j (t + 1) * beta ! (t + 1) ! j) * c ! t)
       \<and> (\<forall>iter h1 logLik. em_iteration h iter = Inr (h1, logLik) \<longrightarrow>
            (\<exists>f b g. forward h = Inr f \<and> backward h (fwd_c f) = Inr b \<and> estep h (fwd_alpha f) b = Inr g
                     \<and> mstep h (fst g) (snd g) = Inr (hmm_pi h1, hmm_A h1, hmm_B h1)))"
proof -
  have T: "0 < hmm_T h"
    using assms by (auto simp: backward_def split: if_splits)
  note rows = backward_rows [OF assms(1) T]
  have "beta ! (hmm_T h - 1) ! i = c ! (hmm_T h - 1)"
    using rows(2) assms(2) by simp
  moreover have "beta ! t ! i
      = (\<Sum>j<nat (hmm_N h). hmm_A h ! i ! j * emit h j (t + 1) * beta ! (t + 1) ! j) * c ! t"
    if "t + 1 < hmm_T h" for t
    using rows(3) [OF that] assms(2) by (simp add: beta_prev_def foldl_upt_sum)
  moreover have "\<exists>f b g. forward h = Inr f \<and> backward h (fwd_c f) = Inr b
      \<and> estep h (fwd_alpha f) b = Inr g \<and> mstep h (fst g) (snd g) = Inr (hmm_pi h1, hmm_A h1, hmm_B h1)"
    if "em_iteration h iter = Inr (h1, logLik)" for iter h1 logLik
    using em_iteration_pipeline [OF that] by fastforce
  ultimately show ?thesis
    using rows(1) by blast
qed

subsection \<open>E-step\<close>

lemma sum_list_concat_rows: "sum_list (concat xss) = sum_list (map sum_list xss)"
  for xss :: "real list list"
  by (induction xss) simp_all

lemma sum_list_concat_upt:
  "sum_list (concat (map (\<lambda>i. map (g i) [0..<n]) [0..<m])) = (\<Sum>i<m. \<Sum>j<n. g i j)"
  for g :: "nat \<Rightarrow> nat \<Rightarrow> real"
  by (simp add: sum_list_concat_rows comp_def interv_sum_list_conv_sum_set_nat atLeast0LessThan)

lemma estep_rows:
  assumes "estep h alpha beta = Inr (gamma, xi)"
  shows "length gamma = hmm_T h" and "length xi = hmm_T h - 1"
    and "t < hmm_T h \<Longrightarrow> gamma ! t = gamma_row h alpha beta t"
    and "t + 1 < hmm_T h \<Longrightarrow> xi ! t = xi_mat h alpha beta t"
  using assms by (auto simp: estep_def split: if_splits)

lemma gamma_row_nth:
  assumes "i < nat (hmm_N h)"
  shows "gamma_row h alpha beta t ! i =
     (let s = (\<Sum>i<nat (hmm_N h). alpha ! t ! i * beta ! t ! i)
      in if s > 0 then alpha ! t ! i * beta ! t ! i / s else alpha ! t ! i * beta ! t ! i)"
  using assms by (simp add: gamma_row_def Let_def foldl_plus_map_upt)

lemma length_gamma_row: "length (gamma_row h alpha beta t) = nat (hmm_N h)"
  by (simp add: gamma_row_def Let_def)

lemma xi_mat_nth:
  assumes "i < nat (hmm_N h)" and "j < nat (hmm_N h)"
  shows "xi_mat h alpha beta t ! i ! j =
     (let s = (\<Sum>i<nat (hmm_N h). \<Sum>j<nat (hmm_N h). xi_unscaled h alpha beta t i j)
      in if s > 0 then xi_unscaled h alpha beta t i j / s else xi_unscaled h alpha beta t i j)"
  using assms
  by (simp add: xi_mat_def Let_def foldl_plus_sum_list sum_list_concat_upt xi_unscaled_def)

lemma estep_row_spec:
  assumes "estep h alpha beta = Inr (gamma, xi)" and "i < nat (hmm_N h)" and "j < nat (hmm_N h)"
  shows "length gamma = hmm_T h \<and> length xi = hmm_T h - 1
       \<and> (\<forall>t. t < hmm_T h \<longrightarrow>
            (let s = (\<Sum>i<nat (hmm_N h). alpha ! t ! i * beta ! t ! i) in
               gamma ! t ! i = (if s > 0 then alpha ! t ! i * beta ! t ! i / s
                                else alpha ! t ! i * beta ! t ! i)
             \<and> (s > 0 \<longrightarrow> (\<Sum>i<nat (hmm_N h). gamma ! t ! i) = 1)))
       \<and> (\<forall>t. t + 1 < hmm_T h \<longrightarrow>
            (let s = (\<Sum>i<nat (hmm_N h). \<Sum>j<nat (hmm_N h). xi_unscaled h alpha beta t i j) in
               xi ! t ! i ! j = (if s > 0 then xi_unscaled h alpha beta t i j / s
                                 else xi_unscaled h alpha beta t i j)
             \<and> (s > 0 \<longrightarrow> (\<Sum>i<nat (hmm_N h). \<Sum>j<nat (hmm_N h). xi ! t ! i ! j) = 1)))"
proof -
  note rows = estep_rows [OF assms(1)]
  have g: "let s = (\<Sum>i<nat (hmm_N h). alpha ! t ! i * beta ! t ! i) in
               gamma ! t ! i = (if s > 0 then alpha ! t ! i * beta ! t ! i / s
                                else alpha ! t ! i * beta ! t ! i)
             \<and> (s > 0 \<longrightarrow> (\<Sum>i<nat (hmm_N h). gamma ! t ! i) = 1)" if t: "t < hmm_T h" for t
  proof -
    define s where "s = (\<Sum>i<nat (hmm_N h). alpha ! t ! i * beta ! t ! i)"
    have nth: "gamma ! t ! k = (if s > 0 then alpha ! t ! k * beta ! t ! k / s
                                else alpha ! t ! k * beta ! t ! k)" if "k < nat (hmm_N h)" for k
      using rows(3) [OF t] gamma_row_nth [OF that] by (simp add: Let_def s_def)
    have "(\<Sum>i<nat (hmm_N h). gamma ! t ! i) = 1" if "s > 0"
    proof -
      have "(\<Sum>i<nat (hmm_N h). gamma ! t ! i) = (\<Sum>i<nat (hmm_N h). alpha ! t ! i * beta ! t ! i / s)"
        using nth that by (intro sum.cong) simp_all
      also have "\<dots> = s / s"
        by (simp only: s_def sum_divide_distrib)
      finally show ?thesis using that by simp
    qed
    with nth [OF assms(2)] show ?thesis
      unfolding s_def [symmetric] Let_def by blast
  qed
  have x: "let s = (\<Sum>i<nat (hmm_N h). \<Sum>j<nat (hmm_N h). xi_unscaled h alpha beta t i j) in
               xi ! t ! i ! j = (if s > 0 then xi_unscaled h alpha beta t i j / s
                                 else xi_unscaled h alpha beta t i j)
             \<and> (s > 0 \<longrightarrow> (\<Sum>i<nat (hmm_N h). \<Sum>j<nat (hmm_N h). xi ! t ! i ! j) = 1)"
    if t: "t + 1 < hmm_T h" for t
  proof -
    define s where "s = (\<Sum>i<nat (hmm_N h). \<Sum>j<nat (hmm_N h). xi_unscaled h alpha beta t i j)"
    have nth: "xi ! t ! k ! l = (if s > 0 then xi_unscaled h alpha beta t k l / s
                                 else xi_unscaled h alpha beta t k l)"
      if "k < nat (hmm_N h)" "l < nat (hmm_N h)" for k l
      using rows(4) [OF t] xi_mat_nth [OF that] by (simp add: Let_def s_def)
    have "(\<Sum>i<nat (hmm_N h). \<Sum>j<nat (hmm_N h). xi ! t ! i ! j) = 1" if "s > 0"
    proof -
      have "(\<Sum>i<nat (hmm_N h). \<Sum>j<nat (hmm_N h). xi ! t ! i ! j)
          = (\<Sum>i<nat (hmm_N h). \<Sum>j<nat (hmm_N h). xi_unscaled h alpha beta t i j / s)"
        using nth that by (intro sum.cong) simp_all
      also have "\<dots> = s / s"
        by (simp only: s_def sum_divide_distrib)
      finally show ?thesis using that by simp
    qed
    with nth [OF assms(2,3)] show ?thesis
      unfolding s_def [symmetric] Let_def by blast
  qed
  from rows(1,2) g x show ?thesis by blast
qed

subsection \<open>Positive models\<close>

lemma tiny_pos: "0 < tiny"
  by (simp add: tiny_def)

lemma emit_pos:
  assumes "positive_model h" and "j < nat (hmm_N h)"
  shows "0 < emit h j t"
proof (cases "Option.bind (js_get (hmm_O h) (int t)) (js_get (hmm_B h ! j))")
  case None
  then show ?thesis by (simp add: emit_def js_or_def tiny_pos)
next
  case (Some b)
  then obtain k where "js_get (hmm_B h ! j) k = Some b"
    by (auto simp: bind_eq_Some_conv)
  then have "nat k < length (hmm_B h ! j)" and "b = hmm_B h ! j ! nat k"
    by (auto simp: js_get_def split: if_splits)
  then have "0 \<le> b"
    using assms by (simp add: positive_model_def)
  then show ?thesis
    using Some by (simp add: emit_def js_or_def tiny_pos)
qed

lemma sum_lessThan_pos:
  fixes g :: "nat \<Rightarrow> real"
  assumes "0 < n" and "\<And>i. i < n \<Longrightarrow> 0 < g i"
  shows "0 < (\<Sum>i<n. g i)"
  using assms by (intro sum_pos) auto

lemma alpha_unscaled_pos:
  assumes "positive_model h" and "j < nat (hmm_N h)"
    and "0 < t \<Longrightarrow> \<forall>i<nat (hmm_N h). 0 < alpha ! (t - 1) ! i"
  shows "0 < alpha_unscaled h alpha t j"
proof (cases "t = 0")
  case True
  then show ?thesis
    using assms(1,2) emit_pos [OF assms(1,2)] by (simp add: alpha_unscaled_def positive_model_def)
next
  case False
  have "0 < (\<Sum>i<nat (hmm_N h). alpha ! (t - 1) ! i * hmm_A h ! i ! j)"
  proof (rule sum_lessThan_pos)
    show "0 < nat (hmm_N h)" using assms(2) by simp
    show "0 < alpha ! (t - 1) ! i * hmm_A h ! i ! j" if "i < nat (hmm_N h)" for i
      using that assms False by (simp add: positive_model_def)
  qed
  then show ?thesis
    using False emit_pos [OF assms(1,2)] by (simp add: alpha_unscaled_def)
qed

lemma forward_total:
  "positive_model h \<Longrightarrow> \<exists>f. forward h = Inr f"
  by (auto simp: forward_def positive_model_def Let_def)

lemma alpha_pos:
  assumes "forward h = Inr f" and "positive_model h"
  shows "t < hmm_T h \<Longrightarrow> j < nat (hmm_N h) \<Longrightarrow> 0 < fwd_alpha f ! t ! j"
proof (induction t arbitrary: j)
  case 0
  have "0 < alpha_unscaled h (fwd_alpha f) 0 j"
    using alpha_unscaled_pos [OF assms(2) "0.prems"(2)] by simp
  then show ?case
    using forward_row(2) [OF assms(1) "0.prems"(1)] forward_c_pos [OF assms(1) "0.prems"(1)]
      "0.prems"(2) by simp
next
  case (Suc t)
  have prev: "\<forall>i<nat (hmm_N h). 0 < fwd_alpha f ! (Suc t - 1) ! i"
    using Suc.IH Suc.prems(1) by simp
  have "0 < alpha_unscaled h (fwd_alpha f) (Suc t) j"
    using alpha_unscaled_pos [OF assms(2) Suc.prems(2)] prev by blast
  then show ?case
    using forward_row(2) [OF assms(1) Suc.prems(1)] forward_c_pos [OF assms(1) Suc.prems(1)]
      Suc.prems(2) by simp
qed

lemma backward_total:
  "positive_model h \<Longrightarrow> \<exists>beta. backward h c = Inr beta"
  by (auto simp: backward_def positive_model_def Let_def)

lemma beta_pos:
  assumes "backward h c = Inr beta" and "positive_model h" and "\<forall>t<hmm_T h. 0 < c ! t"
  shows "d < hmm_T h \<Longrightarrow> i < nat (hmm_N h) \<Longrightarrow> 0 < beta ! (hmm_T h - 1 - d) ! i"
proof (induction d arbitrary: i)
  case 0
  have T: "0 < hmm_T h" using "0.prems"(1) by simp
  show ?case
    using backward_rows(2) [OF assms(1) T] "0.prems"(2) assms(3) T by simp
next
  case (Suc d)
  have T: "0 < hmm_T h" using Suc.prems(1) by simp
  define t where "t = hmm_T h - 1 - Suc d"
  have t: "t + 1 < hmm_T h" and t1: "t + 1 = hmm_T h - 1 - d"
    using Suc.prems(1) by (simp_all add: t_def)
  have "0 < (\<Sum>j<nat (hmm_N h). hmm_A h ! i ! j * emit h j (t + 1) * beta ! (t + 1) ! j)"
  proof (rule sum_lessThan_pos)
    show "0 < nat (hmm_N h)" using Suc.prems(2) by simp
    show "0 < hmm_A h ! i ! j * emit h j (t + 1) * beta ! (t + 1) ! j" if "j < nat (hmm_N h)" for j
    proof -
      have "0 < hmm_A h ! i ! j"
        using assms(2) that Suc.prems(2) by (simp add: positive_model_def)
      moreover have "0 < beta ! (t + 1) ! j"
        using Suc.IH [OF _ that] Suc.prems(1) t1 by simp
      ultimately show ?thesis
        using emit_pos [OF assms(2) that] by simp
    qed
  qed
  moreover have "0 < c ! t"
    using assms(3) t by simp
  ultimately show ?case
    using backward_rows(3) [OF assms(1) T t] Suc.prems(2)
    by (simp add: beta_prev_def foldl_upt_sum t_def)
qed

lemma beta_pos':
  assumes "backward h c = Inr beta" and "positive_model h" and "\<forall>t<hmm_T h. 0 < c ! t"
    and "t < hmm_T h" and "i < nat (hmm_N h)"
  shows "0 < beta ! t ! i"
proof -
  have "hmm_T h - 1 - t < hmm_T h" using assms(4) by simp
  from beta_pos [OF assms(1-3) this assms(5)] assms(4) show ?thesis by simp
qed

lemma estep_total:
  "positive_model h \<Longrightarrow> \<exists>gamma xi. estep h alpha beta = Inr (gamma, xi)"
  by (auto simp: estep_def positive_model_def)

lemma gamma_pos:
  assumes "estep h alpha beta = Inr (gamma, xi)" and "0 < nat (hmm_N h)"
    and "\<forall>i<nat (hmm_N h). 0 < alpha ! t ! i" and "\<forall>i<nat (hmm_N h). 0 < beta ! t ! i"
    and "t < hmm_T h" and "i < nat (hmm_N h)"
  shows "0 < gamma ! t ! i" and "length (gamma ! t) = nat (hmm_N h)"
proof -
  have s: "0 < (\<Sum>i<nat (hmm_N h). alpha ! t ! i * beta ! t ! i)"
    using assms(2-4) by (intro sum_lessThan_pos) simp_all
  have "gamma ! t ! i = alpha ! t ! i * beta ! t ! i / (\<Sum>i<nat (hmm_N h). alpha ! t ! i * beta ! t ! i)"
    using estep_rows(3) [OF assms(1,5)] gamma_row_nth [OF assms(6), of alpha beta t] s
    by (simp add: Let_def)
  then show "0 < gamma ! t ! i"
    using s assms(3,4,6) by simp
  show "length (gamma ! t) = nat (hmm_N h)"
    using estep_rows(3) [OF assms(1,5)] by (simp add: length_gamma_row)
qed

lemma xi_pos:
  assumes "estep h alpha beta = Inr (gamma, xi)" and "positive_model h"
    and "\<forall>i<nat (hmm_N h). 0 < alpha ! t ! i" and "\<forall>i<nat (hmm_N h). 0 < beta ! (t + 1) ! i"
    and "t + 1 < hmm_T h" and "i < nat (hmm_N h)" and "j < nat (hmm_N h)"
  shows "0 < xi ! t ! i ! j"
proof -
  have u: "0 < xi_unscaled h alpha beta t k l" if "k < nat (hmm_N h)" "l < nat (hmm_N h)" for k l
  proof -
    have "0 < hmm_A h ! k ! l"
      using assms(2) that by (simp add: positive_model_def)
    then show ?thesis
      using that assms(3,4) emit_pos [OF assms(2) that(2)] by (simp add: xi_unscaled_def)
  qed
  have n: "0 < nat (hmm_N h)" using assms(6) by simp
  have s: "0 < (\<Sum>i<nat (hmm_N h). \<Sum>j<nat (hmm_N h). xi_unscaled h alpha beta t i j)"
    by (intro sum_lessThan_pos n) (simp_all add: u)
  have "xi ! t ! i ! j = xi_unscaled h alpha beta t i j
          / (\<Sum>i<nat (hmm_N h). \<Sum>j<nat (hmm_N h). xi_unscaled h alpha beta t i j)"
    using estep_rows(4) [OF assms(1,5)] xi_mat_nth [OF assms(6,7), of alpha beta t] s
    by (simp add: Let_def)
  then show ?thesis
    using s u [OF assms(6,7)] by simp
qed

subsection \<open>normalise\<close>

lemma normalise_sum:
  assumes "0 < sum_list row"
  shows "sum_list (normalise row) = 1" and "length (normalise row) = length row"
    and "i < length row \<Longrightarrow> normalise row ! i = row ! i / sum_list row"
proof -
  have s: "js_or (Some (foldl (+) 0 row)) 1 = sum_list row"
    using assms by (simp add: js_or_def foldl_plus_sum_list)
  have "sum_list (map (\<lambda>x. x / c) row) = sum_list row / c" for c :: real
    by (induction row) (simp_all add: add_divide_distrib)
  then show "sum_list (normalise row) = 1"
    using assms by (simp add: normalise_def s)
  show "length (normalise row) = length row"
    by (simp add: normalise_def)
  show "normalise row ! i = row ! i / sum_list row" if "i < length row"
    using that by (simp add: normalise_def s)
qed

lemma sum_list_pos_nth:
  fixes row :: "real list"
  assumes "\<forall>i<length row. 0 \<le> row ! i" and "k < length row" and "0 < row ! k"
  shows "0 < sum_list row"
proof -
  have eq: "sum_list row = row ! k + (\<Sum>i\<in>{..<length row} - {k}. row ! i)"
    using assms(2) by (simp add: sum_list_sum_nth atLeast0LessThan sum.remove)
  have "0 \<le> (\<Sum>i\<in>{..<length row} - {k}. row ! i)"
    using assms(1) by (intro sum_nonneg) simp
  with eq assms(3) show ?thesis
    by linarith
qed

subsection \<open>M-step\<close>

lemma normalise_pos:
  assumes "\<forall>i<length row. 0 < row ! i" and "0 < length row"
  shows "sum_list (normalise row) = 1 \<and> length (normalise row) = length row
         \<and> (\<forall>i<length row. 0 < normalise row ! i)"
proof -
  have "0 < sum_list row"
    using assms by (intro sum_list_pos_nth [of row 0]) (auto intro: less_imp_le)
  then show ?thesis
    using normalise_sum [of row] assms(1) by simp
qed

lemma normalise_nonneg:
  assumes "\<forall>i<length row. 0 \<le> row ! i" and "k < length row" and "0 < row ! k"
  shows "sum_list (normalise row) = 1 \<and> length (normalise row) = length row
         \<and> (\<forall>i<length row. 0 \<le> normalise row ! i)"
proof -
  have "0 < sum_list row"
    using assms by (rule sum_list_pos_nth)
  then show ?thesis
    using normalise_sum [of row] assms(1) by simp
qed

lemma foldl_cond_sum:
  "foldl (\<lambda>num t. if P t then num + g t else num) 0 [0..<n] = (\<Sum>t<n. if P t then g t else 0)"
  for g :: "nat \<Rightarrow> real"
proof -
  have "(\<lambda>num t. if P t then num + g t else num) = (\<lambda>num t. num + (if P t then g t else 0))"
    by (intro ext) simp
  then show ?thesis
    by (simp only: foldl_upt_sum)
qed

lemma js_or_den_pos: "0 \<le> d \<Longrightarrow> 0 < js_or (Some d) tiny"
  by (simp add: js_or_def tiny_pos)

lemma newA_rows:
  "length (newA h gamma xi) = nat (hmm_N h)"
  "i < nat (hmm_N h) \<Longrightarrow> length (newA h gamma xi ! i) = nat (hmm_N h)"
  "i < nat (hmm_N h) \<Longrightarrow> j < nat (hmm_N h) \<Longrightarrow>
     newA h gamma xi ! i ! j
       = (\<Sum>t<hmm_T h - 1. xi ! t ! i ! j) / js_or (Some (\<Sum>t<hmm_T h - 1. gamma ! t ! i)) tiny"
  by (simp_all add: newA_def Let_def foldl_upt_sum)

lemma newB_rows:
  "length (newB h gamma) = nat (hmm_N h)"
  "i < nat (hmm_N h) \<Longrightarrow> length (newB h gamma ! i) = nat (hmm_M h)"
  "i < nat (hmm_N h) \<Longrightarrow> k < nat (hmm_M h) \<Longrightarrow>
     newB h gamma ! i ! k
       = (\<Sum>t<hmm_T h. if js_get (hmm_O h) (int t) = Some (int k) then gamma ! t ! i else 0)
           / js_or (Some (\<Sum>t<hmm_T h. gamma ! t ! i)) tiny"
  by (simp_all add: newB_def Let_def foldl_upt_sum foldl_cond_sum cong: if_cong)

lemma mstep_positive:
  assumes pm: "positive_model h"
    and g: "\<forall>t<hmm_T h. length (gamma ! t) = nat (hmm_N h) \<and> (\<forall>i<nat (hmm_N h). 0 < gamma ! t ! i)"
    and lg: "length gamma = hmm_T h"
    and x: "\<forall>t. t + 1 < hmm_T h \<longrightarrow> (\<forall>i<nat (hmm_N h). \<forall>j<nat (hmm_N h). 0 < xi ! t ! i ! j)"
    and m: "mstep h gamma xi = Inr (pi', A', B')"
  shows "length pi' = nat (hmm_N h) \<and> (\<forall>i<nat (hmm_N h). 0 < pi' ! i) \<and> sum_list pi' = 1"
    and "length A' = nat (hmm_N h)"
    and "i < nat (hmm_N h) \<Longrightarrow>
           length (A' ! i) = nat (hmm_N h) \<and> (\<forall>j<nat (hmm_N h). 0 < A' ! i ! j) \<and> sum_list (A' ! i) = 1"
    and "length B' = nat (hmm_N h)"
    and "i < nat (hmm_N h) \<Longrightarrow>
           length (B' ! i) = nat (hmm_M h) \<and> (\<forall>k<nat (hmm_M h). 0 \<le> B' ! i ! k) \<and> sum_list (B' ! i) = 1"
proof -
  have T: "2 \<le> hmm_T h" and N: "0 < nat (hmm_N h)" and TO: "hmm_T h = length (hmm_O h)"
    using pm by (simp_all add: positive_model_def)
  have gne: "gamma \<noteq> []" using lg T by auto
  have parts: "pi' = normalise (gamma ! 0)" "A' = map normalise (newA h gamma xi)"
    "B' = map normalise (newB h gamma)"
    using m gne by (auto simp: mstep_def hd_conv_nth split: list.splits)
  have g0: "length (gamma ! 0) = nat (hmm_N h)" "\<forall>i<nat (hmm_N h). 0 < gamma ! 0 ! i"
    using g T by auto
  show "length pi' = nat (hmm_N h) \<and> (\<forall>i<nat (hmm_N h). 0 < pi' ! i) \<and> sum_list pi' = 1"
    using normalise_pos [of "gamma ! 0"] g0 N by (simp add: parts)
  show "length A' = nat (hmm_N h)"
    by (simp add: parts newA_rows)
  show "length B' = nat (hmm_N h)"
    by (simp add: parts newB_rows)
  show "length (A' ! i) = nat (hmm_N h) \<and> (\<forall>j<nat (hmm_N h). 0 < A' ! i ! j) \<and> sum_list (A' ! i) = 1"
    if i: "i < nat (hmm_N h)"
  proof -
    have den: "0 < js_or (Some (\<Sum>t<hmm_T h - 1. gamma ! t ! i)) tiny"
      using g i by (intro js_or_den_pos sum_nonneg) (simp add: less_imp_le)
    have "0 < (\<Sum>t<hmm_T h - 1. xi ! t ! i ! j)" if "j < nat (hmm_N h)" for j
      using x i that T by (intro sum_lessThan_pos) auto
    then have "\<forall>j<length (newA h gamma xi ! i). 0 < newA h gamma xi ! i ! j"
      using den i by (simp add: newA_rows)
    from normalise_pos [OF this] N i show ?thesis
      by (simp add: parts newA_rows)
  qed
  show "length (B' ! i) = nat (hmm_M h) \<and> (\<forall>k<nat (hmm_M h). 0 \<le> B' ! i ! k) \<and> sum_list (B' ! i) = 1"
    if i: "i < nat (hmm_N h)"
  proof -
    have den: "0 < js_or (Some (\<Sum>t<hmm_T h. gamma ! t ! i)) tiny"
      using g i by (intro js_or_den_pos sum_nonneg) (simp add: less_imp_le)
    have nonneg: "0 \<le> (\<Sum>t<hmm_T h. if js_get (hmm_O h) (int t) = Some (int k) then gamma ! t ! i else 0)"
      for k
      using g i by (intro sum_nonneg) (simp add: less_imp_le)
    have all: "\<forall>k<length (newB h gamma ! i). 0 \<le> newB h gamma ! i ! k"
      using den nonneg i by (simp add: newB_rows)
    obtain t0 where t0: "t0 < hmm_T h" "0 \<le> hmm_O h ! t0" "hmm_O h ! t0 < hmm_M h"
      using pm by (auto simp: positive_model_def)
    define k0 where "k0 = nat (hmm_O h ! t0)"
    have k0: "k0 < nat (hmm_M h)" and get: "js_get (hmm_O h) (int t0) = Some (int k0)"
      using t0 TO by (simp_all add: k0_def js_get_def)
    have "(\<Sum>t<hmm_T h. if js_get (hmm_O h) (int t) = Some (int k0) then gamma ! t ! i else 0)
        = gamma ! t0 ! i
          + (\<Sum>t\<in>{..<hmm_T h} - {t0}. if js_get (hmm_O h) (int t) = Some (int k0) then gamma ! t ! i else 0)"
      using t0(1) get by (simp add: sum.remove)
    moreover have "0 \<le> (\<Sum>t\<in>{..<hmm_T h} - {t0}.
        if js_get (hmm_O h) (int t) = Some (int k0) then gamma ! t ! i else 0)"
      using g i by (intro sum_nonneg) (simp add: less_imp_le)
    moreover have "0 < gamma ! t0 ! i"
      using g t0(1) i by simp
    ultimately have
      "0 < (\<Sum>t<hmm_T h. if js_get (hmm_O h) (int t) = Some (int k0) then gamma ! t ! i else 0)"
      by linarith
    then have "0 < newB h gamma ! i ! k0"
      using den i k0 by (simp add: newB_rows)
    moreover have "k0 < length (newB h gamma ! i)"
      using i k0 by (simp add: newB_rows)
    ultimately show ?thesis
      using normalise_nonneg [OF all] i by (simp add: parts newB_rows)
  qed
qed

subsection \<open>An iteration keeps the model positive and its rows stochastic\<close>

lemma mstep_total: "gamma \<noteq> [] \<Longrightarrow> \<exists>p. mstep h gamma xi = Inr p"
  by (cases gamma) (simp_all add: mstep_def)

lemma em_iteration_positive:
  assumes pm: "positive_model h" and it: "em_iteration h iter = Inr (h1, logLik)"
  shows "positive_model h1 \<and> row_stochastic h1"
proof -
  obtain f beta gamma xi where f: "forward h = Inr f" and b: "backward h (fwd_c f) = Inr beta"
    and e: "estep h (fwd_alpha f) beta = Inr (gamma, xi)"
    and m: "mstep h gamma xi = Inr (hmm_pi h1, hmm_A h1, hmm_B h1)"
    and h1: "h1 = h\<lparr> hmm_pi := hmm_pi h1, hmm_A := hmm_A h1, hmm_B := hmm_B h1,
                     logLikeHistory := logLikeHistory h @ [logLik], iterations := iter + 1 \<rparr>"
    using em_iteration_pipeline [OF it] by blast
  have N: "0 < nat (hmm_N h)"
    using pm by (simp add: positive_model_def)
  have a_pos: "\<forall>i<nat (hmm_N h). 0 < fwd_alpha f ! t ! i" if "t < hmm_T h" for t
    using alpha_pos [OF f pm that] by simp
  have c_pos: "\<forall>t<hmm_T h. 0 < fwd_c f ! t"
    using forward_c_pos [OF f] by simp
  have b_pos: "\<forall>i<nat (hmm_N h). 0 < beta ! t ! i" if "t < hmm_T h" for t
    using beta_pos' [OF b pm c_pos that] by simp
  have g: "\<forall>t<hmm_T h. length (gamma ! t) = nat (hmm_N h) \<and> (\<forall>i<nat (hmm_N h). 0 < gamma ! t ! i)"
    using gamma_pos [OF e N] a_pos b_pos N by blast
  have x: "\<forall>t. t + 1 < hmm_T h \<longrightarrow> (\<forall>i<nat (hmm_N h). \<forall>j<nat (hmm_N h). 0 < xi ! t ! i ! j)"
  proof (intro allI impI)
    fix t i j
    assume t: "t + 1 < hmm_T h" and i: "i < nat (hmm_N h)" and j: "j < nat (hmm_N h)"
    have "t < hmm_T h" using t by simp
    from xi_pos [OF e pm a_pos [OF this] b_pos [OF t] t i j] show "0 < xi ! t ! i ! j" .
  qed
  note ms = mstep_positive [OF pm g estep_rows(1) [OF e] x m]
  have same: "hmm_O h1 = hmm_O h" "hmm_T h1 = hmm_T h" "hmm_N h1 = hmm_N h" "hmm_M h1 = hmm_M h"
    by (subst h1, simp)+
  have "positive_model h1"
    unfolding positive_model_def same
    using pm ms(1,2,4) ms(3,5) by (auto simp: positive_model_def)
  moreover have "row_stochastic h1"
    unfolding row_stochastic_def
    using ms(1,2,4) ms(3,5) by (auto simp: in_set_conv_nth)
  ultimately show ?thesis ..
qed

lemma em_iteration_total:
  assumes "0 < hmm_T h" and "0 \<le> hmm_N h"
  shows "\<exists>h1 logLik. em_iteration h iter = Inr (h1, logLik)"
proof -
  obtain f where f: "forward h = Inr f"
    using assms by (auto simp: forward_def Let_def)
  obtain beta where b: "backward h (fwd_c f) = Inr beta"
    using assms by (auto simp: backward_def Let_def)
  obtain gamma xi where e: "estep h (fwd_alpha f) beta = Inr (gamma, xi)"
    using assms by (auto simp: estep_def)
  have "gamma \<noteq> []"
    using estep_rows(1) [OF e] assms(1) by auto
  then obtain p A' B' where "mstep h gamma xi = Inr (p, A', B')"
    using mstep_total [of gamma h xi] by (metis prod_cases3)
  with f b e show ?thesis
    by (simp add: em_iteration_def)
qed

lemma em_reachable_positive:
  assumes "em_reachable h0 h" and "positive_model h0" and "row_stochastic h0"
  shows "positive_model h \<and> row_stochastic h"
  using assms
proof (induction rule: em_reachable.induct)
  case start
  then show ?case by simp
next
  case (step h iter h' logLik)
  then show ?case
    using em_iteration_positive by blast
qed

subsection \<open>Initial rows\<close>

lemma unit_interval_fraction:
  "n < 2 ^ 32 \<Longrightarrow> 0 \<le> real n / 4294967296 \<and> real n / 4294967296 < 1"
  by simp

lemma mulberry32_call_range:
  "0 \<le> fst (mulberry32_call g) \<and> fst (mulberry32_call g) < 1"
proof -
  have "unat w < 2 ^ 32" for w :: "32 word"
    using unsigned_less [of w, where 'a = nat] by simp
  then show ?thesis
    unfolding mulberry32_call_def Let_def fst_conv by (rule unit_interval_fraction)
qed

lemma draw_row_pos: "draw_row k g = (v, g') \<Longrightarrow> x \<in> set v \<Longrightarrow> 0 < x"
proof (induction k arbitrary: g v g')
  case 0
  then show ?case by simp
next
  case (Suc k)
  obtain y g1 where y: "mulberry32_call g = (y, g1)" by fastforce
  obtain ys g2 where ys: "draw_row k g1 = (ys, g2)" by fastforce
  have v: "v = (y + 2 / 10) # ys"
    using Suc.prems(1) y ys by simp
  have "0 < y + 2 / 10"
    using mulberry32_call_range [of g] y by simp
  then show ?case
    using Suc.IH [OF ys] Suc.prems(2) v by auto
qed

lemma randRow_stochastic:
  assumes "randRow k g = (r, g')" and "1 \<le> k"
  shows "length r = nat k \<and> (\<forall>i<nat k. 0 < r ! i) \<and> sum_list r = 1"
proof -
  obtain v where v: "draw_row (nat k) g = (v, g')" and r: "r = map (\<lambda>x. x / sum_list v) v"
    using assms(1) by (auto simp: randRow_def Let_def foldl_plus_sum_list split: prod.splits)
  have len: "length v = nat k"
    using length_draw_row [OF v] .
  have pos: "\<forall>i<length v. 0 < v ! i"
    using draw_row_pos [OF v] by simp
  have s: "0 < sum_list v"
    using pos len assms(2) by (intro sum_list_pos_nth [of v 0]) (auto intro: less_imp_le)
  have "sum_list (map (\<lambda>x. x / c) v) = sum_list v / c" for c :: real
    by (induction v) (simp_all add: add_divide_distrib)
  then have "sum_list r = 1"
    using s by (simp add: r)
  moreover have "\<forall>i<nat k. 0 < r ! i"
    using pos s len by (simp add: r)
  ultimately show ?thesis
    by (simp add: r len)
qed

lemma randRows_stochastic:
  assumes "randRows n k g = (rs, g')" and "1 \<le> k" and "i < n"
  shows "length (rs ! i) = nat k \<and> (\<forall>j<nat k. 0 < rs ! i ! j) \<and> sum_list (rs ! i) = 1"
  using assms
proof (induction n arbitrary: g rs g' i)
  case 0
  then show ?case by simp
next
  case (Suc n)
  obtain r g1 where r: "randRow k g = (r, g1)" by fastforce
  obtain rs' g2 where rs': "randRows n k g1 = (rs', g2)" by fastforce
  have rs: "rs = r # rs'"
    using Suc.prems(1) r rs' by simp
  show ?case
  proof (cases i)
    case 0
    then show ?thesis
      using randRow_stochastic [OF r Suc.prems(2)] by (simp add: rs)
  next
    case (Suc i')
    then show ?thesis
      using Suc.IH [OF rs' Suc.prems(2), of i'] Suc.prems(3) by (simp add: rs)
  qed
qed

lemma HMM_new_positive:
  assumes "HMM_new obs N M opts = Inr h0" and "1 \<le> N" and "2 \<le> length obs"
    and "\<exists>t<length obs. 0 \<le> obs ! t \<and> obs ! t < M"
  shows "positive_model h0 \<and> row_stochastic h0 \<and> no_zero_entry h0"
proof -
  have M: "1 \<le> M" using assms(4) by auto
  obtain pi0 g1 A0 g2 B0 g3 where
    p: "randRow N (mulberry32 (js_or (opt_seed opts) 42)) = (pi0, g1)"
    and a: "randRows (nat N) N g1 = (A0, g2)" and b: "randRows (nat N) M g2 = (B0, g3)"
    and h0: "hmm_O h0 = obs" "hmm_T h0 = length obs" "hmm_N h0 = N" "hmm_M h0 = M"
      "hmm_pi h0 = pi0" "hmm_A h0 = A0" "hmm_B h0 = B0"
    using assms(1) by (auto simp: HMM_new_def Let_def split: prod.splits)
  note P = randRow_stochastic [OF p assms(2)]
  note A = randRows_stochastic [OF a assms(2)]
  note B = randRows_stochastic [OF b M]
  have lens: "length A0 = nat N" "length B0 = nat N"
    using length_randRows [OF a] length_randRows [OF b] by simp_all
  have pm: "positive_model h0"
    unfolding positive_model_def h0
    using assms(2-4) P A B lens by (auto intro: less_imp_le)
  have rs: "row_stochastic h0"
    unfolding row_stochastic_def h0
    using P A B lens by (auto simp: in_set_conv_nth)
  have nz: "no_zero_entry h0"
    unfolding no_zero_entry_def h0
    using P A B lens by (fastforce simp: in_set_conv_nth)
  from pm rs nz show ?thesis by blast
qed

subsection \<open>Induction over the training loop\<close>

lemma train_loop_unfold:
  "train_loop cb h prevLL iter calls =
     (if int iter < maxIter h then
        (case em_iteration h iter of
           Inl e \<Rightarrow> Inl e
         | Inr (h1, logLik) \<Rightarrow>
             if converges iter prevLL logLik (epsilon h1) then
               (case final_pass (h1\<lparr> converged := True \<rparr>) of
                  Inl e \<Rightarrow> Inl e
                | Inr h2 \<Rightarrow> Inr (h2, done_call cb (iter_call cb calls iter logLik prevLL) iter))
             else train_loop cb h1 (Some logLik) (iter + 1) (iter_call cb calls iter logLik prevLL))
      else Inr (h, calls))"
  by (subst train_loop.simps)
    (simp add: Let_def converges_def iter_call_def done_call_def split: sum.splits prod.splits)

lemma train_loop_induct [consumes 1, case_names stop converge continue]:
  assumes run: "train_loop cb h prevLL iter calls = Inr (h', calls')"
    and stop: "\<And>h prevLL iter calls. \<not> int iter < maxIter h \<Longrightarrow> P h prevLL iter calls h calls"
    and conv: "\<And>h prevLL iter calls h1 logLik h2.
        int iter < maxIter h \<Longrightarrow> em_iteration h iter = Inr (h1, logLik) \<Longrightarrow>
        converges iter prevLL logLik (epsilon h1) \<Longrightarrow>
        final_pass (h1\<lparr> converged := True \<rparr>) = Inr h2 \<Longrightarrow>
        P h prevLL iter calls h2 (done_call cb (iter_call cb calls iter logLik prevLL) iter)"
    and cont: "\<And>h prevLL iter calls h1 logLik h' calls'.
        int iter < maxIter h \<Longrightarrow> em_iteration h iter = Inr (h1, logLik) \<Longrightarrow>
        \<not> converges iter prevLL logLik (epsilon h1) \<Longrightarrow>
        train_loop cb h1 (Some logLik) (iter + 1) (iter_call cb calls iter logLik prevLL) = Inr (h', calls') \<Longrightarrow>
        P h1 (Some logLik) (iter + 1) (iter_call cb calls iter logLik prevLL) h' calls' \<Longrightarrow>
        P h prevLL iter calls h' calls'"
  shows "P h prevLL iter calls h' calls'"
proof -
  have "cb' = cb \<Longrightarrow> train_loop cb' h prevLL iter calls = Inr (h', calls') \<Longrightarrow>
      P h prevLL iter calls h' calls'" for cb'
proof (induction cb' h prevLL iter calls arbitrary: h' calls' rule: train_loop.induct)
  case (1 cb' h prevLL iter calls)
  note cb = \<open>cb' = cb\<close>
  note prems = "1.prems"(2) [unfolded cb]
  show ?case
  proof (cases "int iter < maxIter h")
    case False
    then have "h' = h" "calls' = calls"
      using prems by (simp_all add: train_loop_unfold)
    then show ?thesis
      using stop [OF False] by simp
  next
    case True
    then obtain h1 logLik where em: "em_iteration h iter = Inr (h1, logLik)"
      using prems by (auto simp: train_loop_unfold split: sum.splits)
    show ?thesis
    proof (cases "converges iter prevLL logLik (epsilon h1)")
      case c: True
      then obtain h2 where fp: "final_pass (h1\<lparr> converged := True \<rparr>) = Inr h2"
        and res: "h' = h2" "calls' = done_call cb (iter_call cb calls iter logLik prevLL) iter"
        using prems True em by (auto simp: train_loop_unfold split: sum.splits)
      show ?thesis
        unfolding res by (rule conv [OF True em c fp])
    next
      case c: False
      have rec: "train_loop cb h1 (Some logLik) (iter + 1) (iter_call cb calls iter logLik prevLL)
          = Inr (h', calls')"
        using prems True em c by (simp add: train_loop_unfold)
      have nc: "\<not> (0 < iter \<and> (case map_option ((-) logLik) prevLL of None \<Rightarrow> False
                                | Some d \<Rightarrow> \<bar>d\<bar> < epsilon h1))"
        using c by (simp add: converges_def)
      have "P h1 (Some logLik) (iter + 1) (iter_call cb calls iter logLik prevLL) h' calls'"
        using "1.IH" [OF True em refl refl _ nc cb, of "iter_call cb calls iter logLik prevLL" h' calls'] rec
        by (simp add: iter_call_def cb)
      then show ?thesis
        by (rule cont [OF True em c rec])
    qed
  qed
qed
  with run show ?thesis by simp
qed

lemma em_reachable_trans:
  "em_reachable h1 h2 \<Longrightarrow> em_reachable h0 h1 \<Longrightarrow> em_reachable h0 h2"
  by (induction rule: em_reachable.induct) (auto intro: em_reachable.intros)

lemma final_pass_fields:
  "final_pass h = Inr h2 \<Longrightarrow> \<exists>a g. h2 = h\<lparr> finalAlpha := Some a, finalGamma := Some g \<rparr>"
  by (auto simp: final_pass_def split: sum.splits)

lemma train_loop_reachable:
  assumes "train_loop cb h prevLL iter calls = Inr (h', calls')"
  shows "\<exists>hn. em_reachable h hn \<and> (h' = hn \<or> final_pass (hn\<lparr> converged := True \<rparr>) = Inr h')"
  using assms
proof (induction rule: train_loop_induct)
  case (stop h prevLL iter calls)
  then show ?case
    by (auto intro: em_reachable.start)
next
  case (converge h prevLL iter calls h1 logLik h2)
  have "em_reachable h h1"
    using converge(2) by (auto intro: em_reachable.intros)
  then show ?case
    using converge(4) by blast
next
  case (continue h prevLL iter calls h1 logLik h' calls')
  have "em_reachable h h1"
    using continue(2) by (auto intro: em_reachable.intros)
  then show ?case
    using continue.IH em_reachable_trans by blast
qed

lemma train_parameters:
  assumes "train cb h0 = Inr (h', calls)"
  shows "\<exists>hn. em_reachable h0 hn \<and> hmm_pi h' = hmm_pi hn \<and> hmm_A h' = hmm_A hn \<and> hmm_B h' = hmm_B hn"
proof -
  obtain h1 where loop: "train_loop cb h0 None 0 [] = Inr (h1, calls)"
    and h': "h' = h1 \<or> final_pass h1 = Inr h'"
    using assms by (auto simp: train_def split: sum.splits prod.splits if_splits)
  obtain hn where hn: "em_reachable h0 hn" "h1 = hn \<or> final_pass (hn\<lparr> converged := True \<rparr>) = Inr h1"
    using train_loop_reachable [OF loop] by blast
  have "hmm_pi h1 = hmm_pi hn \<and> hmm_A h1 = hmm_A hn \<and> hmm_B h1 = hmm_B hn"
    using hn(2) by (auto dest!: final_pass_fields)
  moreover have "hmm_pi h' = hmm_pi h1 \<and> hmm_A h' = hmm_A h1 \<and> hmm_B h' = hmm_B h1"
    using h' by (auto dest!: final_pass_fields)
  ultimately show ?thesis
    using hn(1) by auto
qed

subsection \<open>Examples on the two-state instance\<close>

lemma example_fields:
  "hmm_T example_hmm = 2" "nat (hmm_N example_hmm) = 2" "hmm_N example_hmm = 2"
  by (simp_all add: example_hmm_def)

lemma sum_lessThan_2: "(\<Sum>i<2. g i) = g 0 + g (1 :: nat)" for g :: "nat \<Rightarrow> real"
  by (simp add: numeral_2_eq_2)

lemma example_emit:
  "emit example_hmm 0 0 = 1 / 2" "emit example_hmm (Suc 0) 0 = 3 / 4"
  "emit example_hmm 0 (Suc 0) = 1 / 2" "emit example_hmm (Suc 0) (Suc 0) = 1 / 4"
  by (simp_all add: emit_def example_hmm_def js_get_def js_or_def)

lemma example_A:
  "hmm_A example_hmm ! 0 ! 0 = 1 / 2" "hmm_A example_hmm ! 0 ! Suc 0 = 1 / 2"
  "hmm_A example_hmm ! Suc 0 ! 0 = 1 / 4" "hmm_A example_hmm ! Suc 0 ! Suc 0 = 3 / 4"
  "hmm_pi example_hmm ! 0 = 1 / 2" "hmm_pi example_hmm ! Suc 0 = 1 / 2"
  by (simp_all add: example_hmm_def)

theorem backward_scaled_recursion_witness:
  "\<exists>beta. backward example_hmm [8 / 5, 80 / 27] = Inr beta \<and> length beta = 2
       \<and> beta ! 1 ! 0 = 80 / 27 \<and> beta ! 1 ! 1 = 80 / 27
       \<and> beta ! 0 ! 0 = 16 / 9 \<and> beta ! 0 ! 1 = 40 / 27"
proof -
  obtain beta where b: "backward example_hmm [8 / 5, 80 / 27] = Inr beta"
    by (simp add: backward_def example_hmm_def Let_def)
  have i: "0 < nat (hmm_N example_hmm)" "1 < nat (hmm_N example_hmm)"
    by (simp_all add: example_fields)
  note r0 = backward_scaled_recursion [OF b i(1)]
  note r1 = backward_scaled_recursion [OF b i(2)]
  have last: "beta ! Suc 0 ! 0 = 80 / 27" "beta ! Suc 0 ! Suc 0 = 80 / 27"
    using r0 r1 by (simp_all add: example_fields)
  have "0 + 1 < hmm_T example_hmm"
    by (simp add: example_fields)
  then have first: "beta ! 0 ! 0 = 16 / 9" "beta ! 0 ! Suc 0 = 40 / 27"
    using r0 r1 by (simp_all add: example_fields sum_lessThan_2 example_emit example_A last)
  show ?thesis
    using b r0 last first by (simp add: example_fields)
qed

subsection \<open>The passes read the parameters only\<close>

lemma emit_same: "same_model h h' \<Longrightarrow> emit h' = emit h"
  by (intro ext) (simp add: emit_def same_model_def)

lemma alpha_next_same: "same_model h h' \<Longrightarrow> alpha_next h' = alpha_next h"
  by (intro ext) (simp add: alpha_next_def emit_same, simp add: same_model_def)

lemma forward_loop_same:
  "same_model h h' \<Longrightarrow> forward_loop h' t prev = forward_loop h t prev"
proof (induction h t prev rule: forward_loop.induct)
  case (1 h t prev)
  have T: "hmm_T h' = hmm_T h"
    using "1.prems" by (simp add: same_model_def)
  show ?case
  proof (cases "t < hmm_T h")
    case True
    have "forward_loop h' (t + 1) (map (\<lambda>x. x * scale_factor (alpha_next h prev t)) (alpha_next h prev t))
        = forward_loop h (t + 1) (map (\<lambda>x. x * scale_factor (alpha_next h prev t)) (alpha_next h prev t))"
      by (rule "1.IH" [OF True refl refl refl "1.prems"])
    then show ?thesis
      using True T
      by (subst forward_loop.simps, subst (2) forward_loop.simps)
        (simp add: Let_def alpha_next_same [OF "1.prems"])
  next
    case False
    then show ?thesis
      using T by (subst forward_loop.simps, subst (2) forward_loop.simps) simp
  qed
qed

lemma forward_same: "same_model h h' \<Longrightarrow> forward h' = forward h"
proof -
  assume s: "same_model h h'"
  have "alpha_first h' = alpha_first h"
    using s by (simp add: alpha_first_def emit_same [OF s], simp add: same_model_def)
  then show ?thesis
    using s by (simp add: forward_def forward_loop_same [OF s], simp add: same_model_def)
qed

lemma beta_prev_same: "same_model h h' \<Longrightarrow> beta_prev h' = beta_prev h"
  by (intro ext) (simp add: beta_prev_def emit_same, simp add: same_model_def)

lemma backward_loop_same:
  "same_model h h' \<Longrightarrow> backward_loop h' c k nxt = backward_loop h c k nxt"
  by (induction k arbitrary: nxt) (simp_all add: beta_prev_same)

lemma backward_same: "same_model h h' \<Longrightarrow> backward h' = backward h"
  by (intro ext) (simp add: backward_def backward_loop_same, simp add: same_model_def)

lemma estep_same: "same_model h h' \<Longrightarrow> estep h' = estep h"
proof (intro ext)
  fix alpha beta
  assume s: "same_model h h'"
  have "gamma_row h' alpha beta = gamma_row h alpha beta"
    using s by (intro ext) (simp add: gamma_row_def same_model_def)
  moreover have "xi_mat h' alpha beta = xi_mat h alpha beta"
    using s by (intro ext) (simp add: xi_mat_def emit_same [OF s], simp add: same_model_def)
  ultimately show "estep h' alpha beta = estep h alpha beta"
    using s by (simp add: estep_def same_model_def)
qed

lemma final_pass_result:
  assumes "final_pass h = Inr h2"
  shows "final_artifacts h2 \<and> (\<exists>a g. h2 = h\<lparr> finalAlpha := Some a, finalGamma := Some g \<rparr>)"
proof -
  obtain f fb fg where f: "forward h = Inr f" and b: "backward h (fwd_c f) = Inr fb"
    and e: "estep h (fwd_alpha f) fb = Inr fg"
    and h2: "h2 = h\<lparr> finalAlpha := Some (fwd_logAlpha f), finalGamma := Some (fst fg) \<rparr>"
    using assms by (auto simp: final_pass_def split: sum.splits)
  have s: "same_model h h2"
    by (simp add: same_model_def h2)
  have "final_artifacts h2"
    unfolding final_artifacts_def forward_same [OF s] backward_same [OF s] estep_same [OF s]
    using f b e by (cases fg) (auto simp: h2)
  then show ?thesis
    using h2 by blast
qed

lemma final_pass_total:
  assumes "0 < hmm_T h" and "0 \<le> hmm_N h"
  shows "\<exists>h2. final_pass h = Inr h2"
proof -
  obtain f where f: "forward h = Inr f"
    using assms by (auto simp: forward_def Let_def)
  obtain fb where b: "backward h (fwd_c f) = Inr fb"
    using assms by (auto simp: backward_def Let_def)
  obtain fg where e: "estep h (fwd_alpha f) fb = Inr fg"
    using assms by (auto simp: estep_def)
  show ?thesis
    using f b e by (simp add: final_pass_def)
qed

lemma em_iteration_sizes:
  "em_iteration h iter = Inr (h1, logLik) \<Longrightarrow> hmm_T h1 = hmm_T h \<and> hmm_N h1 = hmm_N h"
  by (auto simp: em_iteration_def split: sum.splits prod.splits)

lemma train_loop_total:
  "0 < hmm_T h \<Longrightarrow> 0 \<le> hmm_N h \<Longrightarrow> \<exists>r. train_loop cb h prevLL iter calls = Inr r"
proof (induction cb h prevLL iter calls rule: train_loop.induct)
  case (1 cb h prevLL iter calls)
  show ?case
  proof (cases "int iter < maxIter h")
    case False
    then show ?thesis by (simp add: train_loop_unfold)
  next
    case True
    obtain h1 logLik where em: "em_iteration h iter = Inr (h1, logLik)"
      using em_iteration_total [OF "1.prems"] by blast
    note sz = em_iteration_sizes [OF em]
    show ?thesis
    proof (cases "converges iter prevLL logLik (epsilon h1)")
      case c: True
      obtain h2 where "final_pass (h1\<lparr> converged := True \<rparr>) = Inr h2"
        using final_pass_total [of "h1\<lparr> converged := True \<rparr>"] "1.prems" sz by auto
      then show ?thesis
        using True em c by (simp add: train_loop_unfold)
    next
      case c: False
      have nc: "\<not> (0 < iter \<and> (case map_option ((-) logLik) prevLL of None \<Rightarrow> False
                                | Some d \<Rightarrow> \<bar>d\<bar> < epsilon h1))"
        using c by (simp add: converges_def)
      have "\<exists>r. train_loop cb h1 (Some logLik) (iter + 1) (iter_call cb calls iter logLik prevLL) = Inr r"
        using "1.IH" [OF True em refl refl _ nc, of "iter_call cb calls iter logLik prevLL"]
          "1.prems" sz by (simp add: iter_call_def)
      then show ?thesis
        using True em c by (simp add: train_loop_unfold)
    qed
  qed
qed

lemma train_loop_sizes:
  assumes "train_loop cb h prevLL iter calls = Inr (h', calls')"
  shows "hmm_T h' = hmm_T h \<and> hmm_N h' = hmm_N h"
  using assms
proof (induction rule: train_loop_induct)
  case (stop h prevLL iter calls)
  then show ?case by simp
next
  case (converge h prevLL iter calls h1 logLik h2)
  then show ?case
    using em_iteration_sizes final_pass_fields by fastforce
next
  case (continue h prevLL iter calls h1 logLik h' calls')
  then show ?case
    using em_iteration_sizes by fastforce
qed

lemma train_total:
  assumes "0 < hmm_T h" and "0 \<le> hmm_N h"
  shows "\<exists>r. train cb h = Inr r"
proof -
  obtain h1 calls where loop: "train_loop cb h None 0 [] = Inr (h1, calls)"
    using train_loop_total [OF assms] by fastforce
  have "\<exists>h2. final_pass h1 = Inr h2"
    using final_pass_total [of h1] train_loop_sizes [OF loop] assms by simp
  then show ?thesis
    using loop by (auto simp: train_def)
qed

subsection \<open>The training loop\<close>

lemma fires_snoc: "k \<le> length H \<Longrightarrow> fires eps (H @ [x]) k = fires eps H k"
  by (auto simp: fires_def nth_append)

lemma fires_last:
  "length H = iter \<Longrightarrow>
     fires eps (H @ [x]) (iter + 1)
       = converges iter (if iter = 0 then None else Some (H ! (iter - 1))) x eps"
  by (auto simp: fires_def converges_def nth_append Suc_le_eq)

lemma iter_calls_snoc:
  "length H = iter \<Longrightarrow>
     iter_call cb (iter_calls cb H iter) iter x (if iter = 0 then None else Some (H ! (iter - 1)))
       = iter_calls cb (H @ [x]) (iter + 1)"
  by (auto simp: iter_call_def iter_calls_def nth_append)

lemma em_iteration_fields:
  assumes "em_iteration h iter = Inr (h1, logLik)"
  shows "logLikeHistory h1 = logLikeHistory h @ [logLik]" and "iterations h1 = iter + 1"
    and "converged h1 = converged h" and "epsilon h1 = epsilon h" and "maxIter h1 = maxIter h"
    and "finalAlpha h1 = finalAlpha h" and "finalGamma h1 = finalGamma h"
  using assms by (auto simp: em_iteration_def split: sum.splits prod.splits)

lemma loop_inv_step:
  assumes inv: "loop_inv cb h prevLL iter calls"
    and em: "em_iteration h iter = Inr (h1, logLik)"
    and nc: "\<not> converges iter prevLL logLik (epsilon h1)"
  shows "loop_inv cb h1 (Some logLik) (iter + 1) (iter_call cb calls iter logLik prevLL)"
proof -
  note f = em_iteration_fields [OF em]
  have len: "length (logLikeHistory h) = iter"
    and prev: "prevLL = (if iter = 0 then None else Some (logLikeHistory h ! (iter - 1)))"
    and calls: "calls = iter_calls cb (logLikeHistory h) iter"
    and nf: "\<forall>k\<le>iter. \<not> fires (epsilon h) (logLikeHistory h) k"
    and conv: "\<not> converged h"
    using inv by (simp_all add: loop_inv_def)
  have c: "iter_call cb calls iter logLik prevLL = iter_calls cb (logLikeHistory h1) (iter + 1)"
    unfolding f prev calls by (rule iter_calls_snoc [OF len])
  have last: "\<not> fires (epsilon h) (logLikeHistory h @ [logLik]) (iter + 1)"
    using nc unfolding fires_last [OF len] prev f by simp
  have "\<not> fires (epsilon h) (logLikeHistory h @ [logLik]) k" if "k \<le> iter + 1" for k
  proof (cases "k = iter + 1")
    case True
    then show ?thesis using last by simp
  next
    case False
    then have "k \<le> length (logLikeHistory h)" using that len by simp
    then show ?thesis
      using nf that False len by (simp add: fires_snoc)
  qed
  then show ?thesis
    using c conv by (simp add: loop_inv_def f len nth_append)
qed

lemma train_loop_post:
  assumes "train_loop cb h prevLL iter calls = Inr (h', calls')"
  shows "loop_inv cb h prevLL iter calls \<longrightarrow> loop_post cb h iter h' calls'"
  using assms
proof (induction rule: train_loop_induct)
  case (stop h prevLL iter calls)
  then show ?case
    by (auto simp: loop_inv_def loop_post_def)
next
  case (converge h prevLL iter calls h1 logLik h2)
  show ?case
  proof
    assume inv: "loop_inv cb h prevLL iter calls"
    note f = em_iteration_fields [OF converge(2)]
    have len: "length (logLikeHistory h) = iter"
      and prev: "prevLL = (if iter = 0 then None else Some (logLikeHistory h ! (iter - 1)))"
      and calls: "calls = iter_calls cb (logLikeHistory h) iter"
      and nf: "\<forall>k\<le>iter. \<not> fires (epsilon h) (logLikeHistory h) k"
      using inv by (simp_all add: loop_inv_def)
    obtain a g where h2: "h2 = h1\<lparr> converged := True, finalAlpha := Some a, finalGamma := Some g \<rparr>"
      and art: "final_artifacts h2"
      using final_pass_result [OF converge(4)] by auto
    have fld: "logLikeHistory h2 = logLikeHistory h @ [logLik]" "iterations h2 = iter + 1"
      "converged h2" "epsilon h2 = epsilon h" "maxIter h2 = maxIter h"
      by (simp_all add: h2 f)
    have c: "iter_call cb calls iter logLik prevLL = iter_calls cb (logLikeHistory h2) (iter + 1)"
      unfolding fld prev calls by (rule iter_calls_snoc [OF len])
    have last: "fires (epsilon h) (logLikeHistory h @ [logLik]) (iter + 1)"
      using converge(3) unfolding fires_last [OF len] prev f by simp
    have before: "\<forall>k<iter + 1. \<not> fires (epsilon h) (logLikeHistory h @ [logLik]) k"
      using nf len by (simp add: fires_snoc)
    show "loop_post cb h iter h2 (done_call cb (iter_call cb calls iter logLik prevLL) iter)"
      unfolding loop_post_def fld c
      using last before art converge(1) len fld(3) by simp
  qed
next
  case (continue h prevLL iter calls h1 logLik h' calls')
  show ?case
  proof
    assume inv: "loop_inv cb h prevLL iter calls"
    note f = em_iteration_fields [OF continue(2)]
    have "loop_inv cb h1 (Some logLik) (iter + 1) (iter_call cb calls iter logLik prevLL)"
      by (rule loop_inv_step [OF inv continue(2,3)])
    then have post: "loop_post cb h1 (iter + 1) h' calls'"
      using continue.IH by simp
    have "max (int (iter + 1)) (maxIter h) = max (int iter) (maxIter h)"
      using continue(1) by simp
    then show "loop_post cb h iter h' calls'"
      using post unfolding loop_post_def f by (auto split: if_splits)
  qed
qed

lemma train_post:
  assumes fresh: "logLikeHistory h0 = []" "iterations h0 = 0" "\<not> converged h0"
    and run: "train cb h0 = Inr (h', calls)"
  shows "length (logLikeHistory h') = iterations h'"
    and "\<forall>k<iterations h'. \<not> fires (epsilon h0) (logLikeHistory h') k"
    and "converged h' \<longleftrightarrow> fires (epsilon h0) (logLikeHistory h') (iterations h')"
    and "converged h' \<Longrightarrow> int (iterations h') \<le> maxIter h0"
    and "\<not> converged h' \<Longrightarrow> int (iterations h') = max 0 (maxIter h0)"
    and "calls = (if converged h'
          then done_call cb (iter_calls cb (logLikeHistory h') (iterations h')) (iterations h' - 1)
          else iter_calls cb (logLikeHistory h') (iterations h'))"
    and "final_artifacts h'"
proof -
  obtain h1 where loop: "train_loop cb h0 None 0 [] = Inr (h1, calls)"
    and h': "if converged h1 then h' = h1 else final_pass h1 = Inr h'"
    using run by (auto simp: train_def split: sum.splits prod.splits if_splits)
  have "loop_inv cb h0 None 0 []"
    using fresh by (simp add: loop_inv_def iter_calls_def fires_def)
  then have post: "loop_post cb h0 0 h1 calls"
    using train_loop_post [OF loop] by simp
  have same: "logLikeHistory h' = logLikeHistory h1 \<and> iterations h' = iterations h1
      \<and> converged h' = converged h1 \<and> final_artifacts h'"
  proof (cases "converged h1")
    case True
    then show ?thesis
      using h' post by (simp add: loop_post_def)
  next
    case False
    then have "final_pass h1 = Inr h'" using h' by simp
    from final_pass_result [OF this] show ?thesis by auto
  qed
  show "length (logLikeHistory h') = iterations h'"
    and "\<forall>k<iterations h'. \<not> fires (epsilon h0) (logLikeHistory h') k"
    and "converged h' \<longleftrightarrow> fires (epsilon h0) (logLikeHistory h') (iterations h')"
    and "converged h' \<Longrightarrow> int (iterations h') \<le> maxIter h0"
    and "\<not> converged h' \<Longrightarrow> int (iterations h') = max 0 (maxIter h0)"
    and "calls = (if converged h'
          then done_call cb (iter_calls cb (logLikeHistory h') (iterations h')) (iterations h' - 1)
          else iter_calls cb (logLikeHistory h') (iterations h'))"
    and "final_artifacts h'"
    using post same by (auto simp: loop_post_def split: if_splits)
qed


text \<open>
  Claim C7. The calls of the callback during \<^verbatim>\<open>train\<close> on a fresh instance are, in order:
  one per completed iteration \<open>k = 0, 1, ...\<close>, with the status line of that iteration,
  the index \<open>k\<close> and no third argument; and after them, exactly when the run converged,
  one call with the index of the last iteration and \<open>done = true\<close>. So a run that stops at
  the cap has no call with \<open>done = true\<close>.
\<close>

theorem callback_once_per_iteration:
  assumes "logLikeHistory h0 = []" and "iterations h0 = 0" and "\<not> converged h0"
    and "train cb h0 = Inr (h', calls)"
  shows "calls =
           (if cb then
              map (\<lambda>k. (IterMsg (k + 1) (logLikeHistory h' ! k)
                          (if k = 0 then None
                           else Some (logLikeHistory h' ! k - logLikeHistory h' ! (k - 1))),
                        k, None)) [0..<iterations h']
              @ (if converged h'
                 then [(ConvergedMsg (iterations h'), iterations h' - 1, Some True)] else [])
            else [])
       \<and> length (filter (\<lambda>c. snd (snd c) = None) calls) = (if cb then iterations h' else 0)
       \<and> length (filter (\<lambda>c. snd (snd c) = Some True) calls) = (if cb \<and> converged h' then 1 else 0)
       \<and> (converged h' \<longleftrightarrow>
             2 \<le> iterations h'
             \<and> \<bar>logLikeHistory h' ! (iterations h' - 1) - logLikeHistory h' ! (iterations h' - 2)\<bar>
                 < epsilon h0)"
proof -
  note p = train_post [OF assms]
  have eq: "calls =
           (if cb then
              map (\<lambda>k. (IterMsg (k + 1) (logLikeHistory h' ! k)
                          (if k = 0 then None
                           else Some (logLikeHistory h' ! k - logLikeHistory h' ! (k - 1))),
                        k, None)) [0..<iterations h']
              @ (if converged h'
                 then [(ConvergedMsg (iterations h'), iterations h' - 1, Some True)] else [])
            else [])"
    using p(6) p(3) by (auto simp: done_call_def iter_calls_def fires_def)
  have f1: "length (filter (\<lambda>c. snd (snd c) = None) calls) = (if cb then iterations h' else 0)"
    by (subst eq) (simp add: filter_map comp_def)
  have f2: "length (filter (\<lambda>c. snd (snd c) = Some True) calls) = (if cb \<and> converged h' then 1 else 0)"
    by (subst eq) (simp add: filter_map comp_def)
  show ?thesis
    using eq f1 f2 p(3) by (simp add: fires_def)
qed

subsection \<open>Training the single-state model\<close>

lemma randRow_one: "fst (randRow 1 g) = [1]"
proof -
  obtain x g1 where x: "mulberry32_call g = (x, g1)" by fastforce
  have "0 \<le> x"
    using mulberry32_call_range [of g] x by simp
  then have "x + 2 / 10 \<noteq> 0" by simp
  then show ?thesis
    using x by (simp add: randRow_def)
qed

lemma randRows_one: "fst (randRows (Suc 0) 1 g) = [[1]]"
  using randRow_one [of g] by (auto split: prod.splits)

lemma HMM_new_single_state:
  "HMM_new [0, 0, 0] 1 1 opts =
     Inr \<lparr> hmm_O = [0, 0, 0], hmm_T = 3, hmm_N = 1, hmm_M = 1,
           maxIter = js_or (opt_maxIter opts) 100, epsilon = js_or (opt_epsilon opts) (1 / 10 ^ 6),
           hmm_pi = [1], hmm_A = [[1]], hmm_B = [[1]],
           logLikeHistory = [], iterations = 0, converged = False,
           finalAlpha = None, finalGamma = None \<rparr>"
proof -
  obtain pi0 g1 where p: "randRow 1 (mulberry32 (js_or (opt_seed opts) 42)) = (pi0, g1)" by fastforce
  obtain A0 g2 where a: "randRows (Suc 0) 1 g1 = (A0, g2)" by fastforce
  obtain B0 g3 where b: "randRows (Suc 0) 1 g2 = (B0, g3)" by fastforce
  have "pi0 = [1]" "A0 = [[1]]" "B0 = [[1]]"
    using randRow_one [of "mulberry32 (js_or (opt_seed opts) 42)"] randRows_one [of g1]
      randRows_one [of g2] p a b by simp_all
  then show ?thesis
    using p a b by (simp add: HMM_new_def)
qed

lemma single_state_emit: "single_state h \<Longrightarrow> emit h 0 t = (if t < 3 then 1 else tiny)"
  by (auto simp: single_state_def emit_def js_get_def js_or_def nth_Cons' )

lemma upt_3: "[0..<3] = [0, 1, 2]"
  by (simp add: upt_rec)

lemma upt_2: "[0..<2] = [0, Suc 0]"
  by (simp add: upt_rec)

lemma single_state_forward:
  assumes "single_state h"
  shows "forward h = Inr \<lparr> fwd_alpha = [[1], [1], [1]], fwd_c = [1, 1, 1], fwd_logLik = 0,
                           fwd_logAlpha = [[0], [0], [0]] \<rparr>"
proof -
  have h: "hmm_T h = 3" "hmm_N h = 1" "hmm_pi h = [1]" "hmm_A h = [[1]]"
    using assms by (simp_all add: single_state_def)
  have first: "alpha_first h = [1]"
    by (simp add: alpha_first_def h single_state_emit [OF assms])
  have nxt: "alpha_next h [1] t = [1]" if "t < 3" for t
    using that by (simp add: alpha_next_def h single_state_emit [OF assms])
  have sc: "scale_factor [1] = 1"
    by (simp add: scale_factor_def)
  have l3: "forward_loop h 3 [1] = []"
    by (subst forward_loop.simps) (simp add: h)
  have l2: "forward_loop h 2 [1] = [([1], 1)]"
    by (subst forward_loop.simps) (simp add: h nxt sc Let_def l3)
  have l2': "forward_loop h (Suc (Suc 0)) [1] = [([1], 1)]"
    using l2 by (simp add: numeral_2_eq_2)
  have l1: "forward_loop h 1 [1] = [([1], 1), ([1], 1)]"
    by (subst forward_loop.simps) (simp add: h nxt sc Let_def l2')
  have l1': "forward_loop h (Suc 0) [1] = [([1], 1), ([1], 1)]"
    using l1 by simp
  show ?thesis
    by (simp add: forward_def h first sc l1' upt_3 log_floor_def Let_def)
qed

lemma single_state_backward:
  assumes "single_state h"
  shows "backward h [1, 1, 1] = Inr [[1], [1], [1]]"
proof -
  have h: "hmm_T h = 3" "hmm_N h = 1" "hmm_A h = [[1]]"
    using assms by (simp_all add: single_state_def)
  have prev: "beta_prev h [1, 1, 1] t [1] = [1]" if "t < 2" for t
    using that by (auto simp: beta_prev_def h single_state_emit [OF assms] nth_Cons')
  have loop: "backward_loop h [1, 1, 1] 2 [1] = [[1], [1]]"
    unfolding numeral_2_eq_2 by (simp add: prev Let_def)
  show ?thesis
    by (simp add: backward_def h Let_def loop)
qed

lemma single_state_estep:
  assumes "single_state h"
  shows "estep h [[1], [1], [1]] [[1], [1], [1]] = Inr ([[1], [1], [1]], [[[1]], [[1]]])"
proof -
  have h: "hmm_T h = 3" "hmm_N h = 1" "hmm_A h = [[1]]"
    using assms by (simp_all add: single_state_def)
  have g: "gamma_row h [[1], [1], [1]] [[1], [1], [1]] t = [1]" if "t < 3" for t
    using that by (auto simp: gamma_row_def h nth_Cons')
  have x: "xi_mat h [[1], [1], [1]] [[1], [1], [1]] t = [[1]]" if "t < 2" for t
    using that by (auto simp: xi_mat_def h single_state_emit [OF assms] nth_Cons')
  show ?thesis
    by (simp add: estep_def h upt_3 upt_2 g x)
qed

lemma single_state_mstep:
  assumes "single_state h"
  shows "mstep h [[1], [1], [1]] [[[1]], [[1]]] = Inr ([1], [[1]], [[1]])"
proof -
  have h: "hmm_T h = 3" "hmm_N h = 1" "hmm_M h = 1" "hmm_O h = [0, 0, 0]"
    using assms by (simp_all add: single_state_def)
  have two: "[0..<3 - 1] = [0, Suc 0]"
    by (simp add: upt_rec)
  have n: "normalise [1] = [1]"
    by (simp add: normalise_def js_or_def)
  have a: "newA h [[1], [1], [1]] [[[1]], [[1]]] = [[1]]"
    by (simp add: newA_def h upt_2 js_or_def Let_def)
  have b: "newB h [[1], [1], [1]] = [[1]]"
    by (simp add: newB_def h upt_3 js_or_def js_get_def Let_def)
  show ?thesis
    by (simp add: mstep_def n a b)
qed

lemma single_state_em_iteration:
  assumes "single_state h"
  shows "em_iteration h iter =
     Inr (h\<lparr> hmm_pi := [1], hmm_A := [[1]], hmm_B := [[1]],
              logLikeHistory := logLikeHistory h @ [0], iterations := iter + 1 \<rparr>, 0)"
  by (simp add: em_iteration_def single_state_forward [OF assms] single_state_backward [OF assms]
      single_state_estep [OF assms] single_state_mstep [OF assms])

lemma single_state_final_pass:
  assumes "single_state h"
  shows "final_pass h = Inr (h\<lparr> finalAlpha := Some [[0], [0], [0]], finalGamma := Some [[1], [1], [1]] \<rparr>)"
  by (simp add: final_pass_def single_state_forward [OF assms] single_state_backward [OF assms]
      single_state_estep [OF assms])

lemma HMM_new_default: 
  "HMM_new [0, 0, 0] 1 1 \<lparr>opt_maxIter = None, opt_epsilon = None, opt_seed = None\<rparr>
     = Inr (single_state_hmm 100)"
  "HMM_new [0, 0, 0] 1 1 \<lparr>opt_maxIter = Some 1, opt_epsilon = None, opt_seed = None\<rparr>
     = Inr (single_state_hmm 1)"
  by (simp_all add: HMM_new_single_state single_state_hmm_def js_or_def)

lemma train_loop_continue:
  "int iter < maxIter h \<Longrightarrow> em_iteration h iter = Inr (h1, logLik) \<Longrightarrow>
   \<not> converges iter prevLL logLik (epsilon h1) \<Longrightarrow>
   train_loop cb h prevLL iter calls
     = train_loop cb h1 (Some logLik) (iter + 1) (iter_call cb calls iter logLik prevLL)"
  by (simp add: train_loop_unfold)

lemma train_loop_converge:
  "int iter < maxIter h \<Longrightarrow> em_iteration h iter = Inr (h1, logLik) \<Longrightarrow>
   converges iter prevLL logLik (epsilon h1) \<Longrightarrow>
   final_pass (h1\<lparr> converged := True \<rparr>) = Inr h2 \<Longrightarrow>
   train_loop cb h prevLL iter calls
     = Inr (h2, done_call cb (iter_call cb calls iter logLik prevLL) iter)"
  by (simp add: train_loop_unfold)

lemma train_loop_stop:
  "\<not> int iter < maxIter h \<Longrightarrow> train_loop cb h prevLL iter calls = Inr (h, calls)"
  by (simp add: train_loop_unfold)

lemma train_converged:
  "train_loop cb h None 0 [] = Inr (h', calls) \<Longrightarrow> converged h' \<Longrightarrow> train cb h = Inr (h', calls)"
  by (simp add: train_def)

lemma train_cap:
  "train_loop cb h None 0 [] = Inr (h1, calls) \<Longrightarrow> \<not> converged h1 \<Longrightarrow>
   final_pass h1 = Inr h' \<Longrightarrow> train cb h = Inr (h', calls)"
  by (simp add: train_def)

lemma train_single_state_converges:
  "train True (single_state_hmm 100) =
     Inr ((single_state_hmm 100)
            \<lparr> logLikeHistory := [0, 0], iterations := 2, converged := True,
              finalAlpha := Some [[0], [0], [0]], finalGamma := Some [[1], [1], [1]] \<rparr>,
          [(IterMsg 1 0 None, 0, None), (IterMsg 2 0 (Some 0), 1, None),
           (ConvergedMsg 2, 1, Some True)])"
proof -
  let ?h0 = "single_state_hmm 100"
  define h1 where "h1 = ?h0\<lparr> hmm_pi := [1], hmm_A := [[1]], hmm_B := [[1]],
      logLikeHistory := logLikeHistory ?h0 @ [0], iterations := 0 + 1 \<rparr>"
  define h2 where "h2 = h1\<lparr> hmm_pi := [1], hmm_A := [[1]], hmm_B := [[1]],
      logLikeHistory := logLikeHistory h1 @ [0], iterations := (0 + 1) + 1 \<rparr>"
  define h3 where "h3 = h2\<lparr> converged := True \<rparr>
      \<lparr> finalAlpha := Some [[0], [0], [0]], finalGamma := Some [[1], [1], [1]] \<rparr>"
  have s0: "single_state ?h0"
    by (simp add: single_state_def single_state_hmm_def)
  have s1: "single_state h1"
    by (simp add: single_state_def single_state_hmm_def h1_def)
  have s2: "single_state (h2\<lparr> converged := True \<rparr>)"
    by (simp add: single_state_def single_state_hmm_def h1_def h2_def)
  have e0: "em_iteration ?h0 0 = Inr (h1, 0)"
    unfolding h1_def by (rule single_state_em_iteration [OF s0])
  have e1: "em_iteration h1 (0 + 1) = Inr (h2, 0)"
    unfolding h2_def by (rule single_state_em_iteration [OF s1])
  have fp: "final_pass (h2\<lparr> converged := True \<rparr>) = Inr h3"
    unfolding h3_def by (rule single_state_final_pass [OF s2])
  have lt0: "int 0 < maxIter ?h0" and lt1: "int (0 + 1) < maxIter h1"
    by (simp_all add: single_state_hmm_def h1_def)
  have c0: "\<not> converges 0 None 0 (epsilon h1)"
    and c1: "converges (0 + 1) (Some 0) 0 (epsilon h2)"
    by (simp_all add: converges_def single_state_hmm_def h1_def h2_def)
  have "train_loop True ?h0 None 0 []
      = Inr (h3, done_call True (iter_call True (iter_call True [] 0 0 None) (0 + 1) 0 (Some 0)) (0 + 1))"
    by (rule trans [OF train_loop_continue [OF lt0 e0 c0] train_loop_converge [OF lt1 e1 c1 fp]])
  moreover have "converged h3"
    by (simp add: h3_def)
  ultimately have "train True ?h0
      = Inr (h3, done_call True (iter_call True (iter_call True [] 0 0 None) (0 + 1) 0 (Some 0)) (0 + 1))"
    by (rule train_converged)
  moreover have "h3 = ?h0\<lparr> logLikeHistory := [0, 0], iterations := 2, converged := True,
              finalAlpha := Some [[0], [0], [0]], finalGamma := Some [[1], [1], [1]] \<rparr>"
    by (simp add: h3_def h2_def h1_def single_state_hmm_def)
  moreover have "done_call True (iter_call True (iter_call True [] 0 0 None) (0 + 1) 0 (Some 0)) (0 + 1)
      = [(IterMsg 1 0 None, 0, None), (IterMsg 2 0 (Some 0), 1, None), (ConvergedMsg 2, 1, Some True)]"
    by (simp add: done_call_def iter_call_def)
  ultimately show ?thesis
    by simp
qed

lemma train_single_state_cap:
  "train True (single_state_hmm 1) =
     Inr ((single_state_hmm 1)
            \<lparr> logLikeHistory := [0], iterations := 1,
              finalAlpha := Some [[0], [0], [0]], finalGamma := Some [[1], [1], [1]] \<rparr>,
          [(IterMsg 1 0 None, 0, None)])"
proof -
  let ?h0 = "single_state_hmm 1"
  define h1 where "h1 = ?h0\<lparr> hmm_pi := [1], hmm_A := [[1]], hmm_B := [[1]],
      logLikeHistory := logLikeHistory ?h0 @ [0], iterations := 0 + 1 \<rparr>"
  define h2 where "h2 = h1\<lparr> finalAlpha := Some [[0], [0], [0]], finalGamma := Some [[1], [1], [1]] \<rparr>"
  have s0: "single_state ?h0"
    by (simp add: single_state_def single_state_hmm_def)
  have s1: "single_state h1"
    by (simp add: single_state_def single_state_hmm_def h1_def)
  have e0: "em_iteration ?h0 0 = Inr (h1, 0)"
    unfolding h1_def by (rule single_state_em_iteration [OF s0])
  have fp: "final_pass h1 = Inr h2"
    unfolding h2_def by (rule single_state_final_pass [OF s1])
  have lt0: "int 0 < maxIter ?h0" and lt1: "\<not> int (0 + 1) < maxIter h1"
    by (simp_all add: single_state_hmm_def h1_def)
  have c0: "\<not> converges 0 None 0 (epsilon h1)"
    by (simp add: converges_def)
  have "train_loop True ?h0 None 0 [] = Inr (h1, iter_call True [] 0 0 None)"
    by (rule trans [OF train_loop_continue [OF lt0 e0 c0] train_loop_stop [OF lt1]])
  moreover have "\<not> converged h1"
    by (simp add: h1_def single_state_hmm_def)
  ultimately have "train True ?h0 = Inr (h2, iter_call True [] 0 0 None)"
    using fp by (rule train_cap)
  moreover have "h2 = ?h0\<lparr> logLikeHistory := [0], iterations := 1,
              finalAlpha := Some [[0], [0], [0]], finalGamma := Some [[1], [1], [1]] \<rparr>"
    by (simp add: h2_def h1_def single_state_hmm_def)
  moreover have "iter_call True [] 0 0 None = [(IterMsg 1 0 None, 0, None)]"
    by (simp add: iter_call_def)
  ultimately show ?thesis
    by simp
qed

lemma single_state_fresh:
  "logLikeHistory (single_state_hmm cap) = []" "iterations (single_state_hmm cap) = 0"
  "\<not> converged (single_state_hmm cap)" "epsilon (single_state_hmm cap) = 1 / 10 ^ 6"
  "maxIter (single_state_hmm cap) = cap"
  "0 < hmm_T (single_state_hmm cap) \<and> 0 \<le> hmm_N (single_state_hmm cap)"
  by (simp_all add: single_state_hmm_def)


theorem callback_once_per_iteration_witness:
  "(\<exists>h0 h' calls.
      HMM_new [0, 0, 0] 1 1 \<lparr>opt_maxIter = None, opt_epsilon = None, opt_seed = None\<rparr> = Inr h0
      \<and> train True h0 = Inr (h', calls) \<and> iterations h' = 2 \<and> converged h'
      \<and> calls = [(IterMsg 1 0 None, 0, None), (IterMsg 2 0 (Some 0), 1, None),
                 (ConvergedMsg 2, 1, Some True)]
      \<and> length (filter (\<lambda>c. snd (snd c) = None) calls) = 2
      \<and> length (filter (\<lambda>c. snd (snd c) = Some True) calls) = 1)
   \<and> (\<exists>h0 h' calls.
      HMM_new [0, 0, 0] 1 1 \<lparr>opt_maxIter = Some 1, opt_epsilon = None, opt_seed = None\<rparr> = Inr h0
      \<and> train True h0 = Inr (h', calls) \<and> iterations h' = 1 \<and> \<not> converged h'
      \<and> calls = [(IterMsg 1 0 None, 0, None)]
      \<and> length (filter (\<lambda>c. snd (snd c) = None) calls) = 1
      \<and> length (filter (\<lambda>c. snd (snd c) = Some True) calls) = 0)"
proof -
  note a = callback_once_per_iteration [OF single_state_fresh(1-3) train_single_state_converges]
  note b = callback_once_per_iteration [OF single_state_fresh(1-3) train_single_state_cap]
  have "length (filter (\<lambda>c. snd (snd c) = None)
           [(IterMsg 1 0 None, 0 :: nat, None :: bool option), (IterMsg 2 0 (Some 0), 1, None),
            (ConvergedMsg 2, 1, Some True)]) = 2"
    and "length (filter (\<lambda>c. snd (snd c) = Some True)
           [(IterMsg 1 0 None, 0 :: nat, None :: bool option), (IterMsg 2 0 (Some 0), 1, None),
            (ConvergedMsg 2, 1, Some True)]) = 1"
    using a by simp_all
  moreover have "length (filter (\<lambda>c. snd (snd c) = None)
           [(IterMsg 1 0 None, 0 :: nat, None :: bool option)]) = 1"
    and "length (filter (\<lambda>c. snd (snd c) = Some True)
           [(IterMsg 1 0 None, 0 :: nat, None :: bool option)]) = 0"
    using b by simp_all
  ultimately show ?thesis
    by (simp add: HMM_new_default train_single_state_converges train_single_state_cap
        single_state_fresh)
qed

text \<open>
  Claim C2. The forward pass returns rows \<open>alpha[t]\<close> and factors \<open>c[t]\<close>, \<open>t < T\<close>, with
  \<open>alpha[t][j] = u[t][j] * c[t]\<close>, where \<open>u[0][j] = pi[j] * b\<^sub>j(O[0])\<close> and
  \<open>u[t][j] = (\<Sum>\<^sub>i alpha[t-1][i] * A[i][j]) * b\<^sub>j(O[t])\<close>, the emission \<open>b\<^sub>j(O[t])\<close> being
  \<open>B[j][O[t]]\<close> with \<open>1e-300\<close> in place of zero (or of a missing entry); \<open>c[t]\<close> is the
  reciprocal of the sum \<open>S\<close> of the unscaled row when \<open>S > 0\<close> and 1 otherwise; when \<open>S > 0\<close>
  the row is the unscaled row divided by \<open>S\<close> and sums to 1; and the log-likelihood
  returned is \<open>- \<Sum>\<^sub>t log c[t]\<close>. On the models that training reaches (\<open>positive_model\<close>),
  \<open>S > 0\<close> at every step, so every row sums to 1.
\<close>

theorem forward_scaled_recursion:
  assumes "forward h = Inr f" and "t < hmm_T h" and "j < nat (hmm_N h)"
  shows "let S = (\<Sum>j<nat (hmm_N h). alpha_unscaled h (fwd_alpha f) t j) in
           fwd_c f ! t = (if S > 0 then 1 / S else 1)
         \<and> fwd_alpha f ! t ! j = alpha_unscaled h (fwd_alpha f) t j * fwd_c f ! t
         \<and> (S > 0 \<longrightarrow> fwd_alpha f ! t ! j = alpha_unscaled h (fwd_alpha f) t j / S
                    \<and> (\<Sum>j<nat (hmm_N h). fwd_alpha f ! t ! j) = 1)
         \<and> length (fwd_alpha f) = hmm_T h \<and> length (fwd_c f) = hmm_T h
         \<and> length (fwd_alpha f ! t) = nat (hmm_N h)
         \<and> fwd_logLik f = - (\<Sum>t<hmm_T h. ln (fwd_c f ! t))
         \<and> emit h j t = (case Option.bind (js_get (hmm_O h) (int t)) (js_get (hmm_B h ! j)) of
                          None \<Rightarrow> tiny | Some b \<Rightarrow> if b = 0 then tiny else b)
         \<and> 0 < tiny
         \<and> (positive_model h \<longrightarrow> S > 0 \<and> (\<Sum>j<nat (hmm_N h). fwd_alpha f ! t ! j) = 1)"
proof -
  define S where "S = (\<Sum>j<nat (hmm_N h). alpha_unscaled h (fwd_alpha f) t j)"
  note spec = forward_row_spec [OF assms, unfolded Let_def, folded S_def]
  have "S > 0" if pm: "positive_model h"
    unfolding S_def
  proof (rule sum_lessThan_pos)
    show "0 < nat (hmm_N h)" using assms(3) by simp
    show "0 < alpha_unscaled h (fwd_alpha f) t i" if i: "i < nat (hmm_N h)" for i
    proof (rule alpha_unscaled_pos [OF pm i])
      assume "0 < t"
      then have "t - 1 < hmm_T h" using assms(2) by simp
      then show "\<forall>i<nat (hmm_N h). 0 < fwd_alpha f ! (t - 1) ! i"
        using alpha_pos [OF assms(1) pm] by simp
    qed
  qed
  with spec show ?thesis
    unfolding Let_def S_def [symmetric] by blast
qed

text \<open>
  Claim C4. The E-step returns \<open>T\<close> rows \<open>gamma[t]\<close> and \<open>T - 1\<close> slices \<open>xi[t]\<close>.
  \<open>gamma[t][i]\<close> is \<open>alpha[t][i] * beta[t][i]\<close> divided by the sum \<open>s\<close> of these products
  over the row when \<open>s > 0\<close>, so that the row sums to 1, and the product itself otherwise.
  \<open>xi[t][i][j]\<close> is \<open>alpha[t][i] * A[i][j] * b\<^sub>j(O[t+1]) * beta[t+1][j]\<close> divided by the sum of
  these over the whole \<open>N \<times> N\<close> slice when that sum is positive, so that the slice sums
  to 1 (and left as it is otherwise: the same guard). With positive \<open>alpha\<close> and \<open>beta\<close> on
  a model that training reaches, every row and every slice sums to 1.
\<close>

theorem estep_occupancies:
  assumes "estep h alpha beta = Inr (gamma, xi)" and "i < nat (hmm_N h)" and "j < nat (hmm_N h)"
  shows "length gamma = hmm_T h \<and> length xi = hmm_T h - 1
       \<and> (\<forall>t. t < hmm_T h \<longrightarrow>
            (let s = (\<Sum>i<nat (hmm_N h). alpha ! t ! i * beta ! t ! i) in
               gamma ! t ! i = (if s > 0 then alpha ! t ! i * beta ! t ! i / s
                                else alpha ! t ! i * beta ! t ! i)
             \<and> (s > 0 \<longrightarrow> (\<Sum>i<nat (hmm_N h). gamma ! t ! i) = 1)))
       \<and> (\<forall>t. t + 1 < hmm_T h \<longrightarrow>
            (let s = (\<Sum>i<nat (hmm_N h). \<Sum>j<nat (hmm_N h). xi_unscaled h alpha beta t i j) in
               xi ! t ! i ! j = (if s > 0 then xi_unscaled h alpha beta t i j / s
                                 else xi_unscaled h alpha beta t i j)
             \<and> (s > 0 \<longrightarrow> (\<Sum>i<nat (hmm_N h). \<Sum>j<nat (hmm_N h). xi ! t ! i ! j) = 1)))
       \<and> (positive_model h
            \<and> (\<forall>t i. t < hmm_T h \<and> i < nat (hmm_N h) \<longrightarrow> 0 < alpha ! t ! i \<and> 0 < beta ! t ! i) \<longrightarrow>
            (\<forall>t. t < hmm_T h \<longrightarrow> (\<Sum>i<nat (hmm_N h). gamma ! t ! i) = 1)
            \<and> (\<forall>t. t + 1 < hmm_T h \<longrightarrow> (\<Sum>i<nat (hmm_N h). \<Sum>j<nat (hmm_N h). xi ! t ! i ! j) = 1))"
proof -
  note spec = estep_row_spec [OF assms]
  have N: "0 < nat (hmm_N h)" using assms(2) by simp
  have pos: "(\<forall>t. t < hmm_T h \<longrightarrow> (\<Sum>i<nat (hmm_N h). gamma ! t ! i) = 1)
      \<and> (\<forall>t. t + 1 < hmm_T h \<longrightarrow> (\<Sum>i<nat (hmm_N h). \<Sum>j<nat (hmm_N h). xi ! t ! i ! j) = 1)"
    if pm: "positive_model h"
      and ab: "\<forall>t i. t < hmm_T h \<and> i < nat (hmm_N h) \<longrightarrow> 0 < alpha ! t ! i \<and> 0 < beta ! t ! i"
  proof (intro conjI allI impI)
    fix t
    assume t: "t < hmm_T h"
    have "0 < (\<Sum>i<nat (hmm_N h). alpha ! t ! i * beta ! t ! i)"
      using ab t by (intro sum_lessThan_pos N) simp
    then show "(\<Sum>i<nat (hmm_N h). gamma ! t ! i) = 1"
      using spec t unfolding Let_def by blast
  next
    fix t
    assume t: "t + 1 < hmm_T h"
    have "0 < xi_unscaled h alpha beta t k l" if "k < nat (hmm_N h)" "l < nat (hmm_N h)" for k l
    proof -
      have "0 < hmm_A h ! k ! l"
        using pm that by (simp add: positive_model_def)
      moreover have "0 < alpha ! t ! k" "0 < beta ! (t + 1) ! l"
        using ab t that by simp_all
      ultimately show ?thesis
        using emit_pos [OF pm that(2)] by (simp add: xi_unscaled_def)
    qed
    then have "0 < (\<Sum>i<nat (hmm_N h). \<Sum>j<nat (hmm_N h). xi_unscaled h alpha beta t i j)"
      by (intro sum_lessThan_pos N) simp_all
    then show "(\<Sum>i<nat (hmm_N h). \<Sum>j<nat (hmm_N h). xi ! t ! i ! j) = 1"
      using spec t unfolding Let_def by blast
  qed
  from spec pos show ?thesis
    by blast
qed

theorem forward_scaled_recursion_witness:
  "\<exists>f. forward example_hmm = Inr f
       \<and> fwd_c f = [8 / 5, 80 / 27]
       \<and> fwd_alpha f ! 0 ! 0 = 2 / 5 \<and> fwd_alpha f ! 0 ! 1 = 3 / 5
       \<and> fwd_alpha f ! 1 ! 0 = 14 / 27 \<and> fwd_alpha f ! 1 ! 1 = 13 / 27
       \<and> (\<Sum>j<2. fwd_alpha f ! 1 ! j) = 1
       \<and> fwd_logLik f = - (ln (8 / 5) + ln (80 / 27))"
proof -
  obtain f where f: "forward example_hmm = Inr f"
    by (simp add: forward_def example_hmm_def Let_def)
  have t: "0 < hmm_T example_hmm" "1 < hmm_T example_hmm"
    and j: "0 < nat (hmm_N example_hmm)" "1 < nat (hmm_N example_hmm)"
    by (simp_all add: example_fields)
  note r00 = forward_scaled_recursion [OF f t(1) j(1)]
  note r01 = forward_scaled_recursion [OF f t(1) j(2)]
  note r10 = forward_scaled_recursion [OF f t(2) j(1)]
  note r11 = forward_scaled_recursion [OF f t(2) j(2)]
  have u0: "alpha_unscaled example_hmm (fwd_alpha f) 0 0 = 1 / 4"
    "alpha_unscaled example_hmm (fwd_alpha f) 0 (Suc 0) = 3 / 8"
    by (simp_all add: alpha_unscaled_def example_emit example_A)
  have c0: "fwd_c f ! 0 = 8 / 5"
    using r00 by (simp add: Let_def example_fields sum_lessThan_2 u0)
  have a0: "fwd_alpha f ! 0 ! 0 = 2 / 5" "fwd_alpha f ! 0 ! Suc 0 = 3 / 5"
    using r00 r01 by (simp_all add: Let_def example_fields sum_lessThan_2 u0)
  have u1: "alpha_unscaled example_hmm (fwd_alpha f) (Suc 0) 0 = 7 / 40"
    "alpha_unscaled example_hmm (fwd_alpha f) (Suc 0) (Suc 0) = 13 / 80"
    by (simp_all add: alpha_unscaled_def example_emit example_A a0 example_fields sum_lessThan_2)
  have c1: "fwd_c f ! Suc 0 = 80 / 27"
    using r10 by (simp add: Let_def example_fields sum_lessThan_2 u1)
  have a1: "fwd_alpha f ! Suc 0 ! 0 = 14 / 27" "fwd_alpha f ! Suc 0 ! Suc 0 = 13 / 27"
    using r10 r11 by (simp_all add: Let_def example_fields sum_lessThan_2 u1)
  have len: "length (fwd_c f) = 2"
    using r00 by (simp add: Let_def example_fields)
  have c: "fwd_c f = [8 / 5, 80 / 27]"
    using len c0 c1 by (auto simp: list_eq_iff_nth_eq less_Suc_eq numeral_2_eq_2)
  have ll: "fwd_logLik f = - (ln (8 / 5) + ln (80 / 27))"
    using r00 by (simp add: Let_def example_fields sum_lessThan_2 c)
  show ?thesis
    using f c a0 a1 ll by (simp add: sum_lessThan_2)
qed

theorem estep_occupancies_witness:
  "\<exists>gamma xi. estep example_hmm [[2 / 5, 3 / 5], [14 / 27, 13 / 27]]
                  [[16 / 9, 40 / 27], [80 / 27, 80 / 27]] = Inr (gamma, xi)
       \<and> length gamma = 2 \<and> length xi = 1
       \<and> gamma ! 0 ! 0 = 4 / 9 \<and> gamma ! 0 ! 1 = 5 / 9 \<and> (\<Sum>i<2. gamma ! 0 ! i) = 1
       \<and> xi ! 0 ! 0 ! 0 = 8 / 27 \<and> (\<Sum>i<2. \<Sum>j<2. xi ! 0 ! i ! j) = 1"
proof -
  let ?alpha = "[[2 / 5, 3 / 5], [14 / 27, 13 / 27 :: real]]"
  let ?beta = "[[16 / 9, 40 / 27], [80 / 27, 80 / 27 :: real]]"
  obtain gamma xi where e: "estep example_hmm ?alpha ?beta = Inr (gamma, xi)"
    by (simp add: estep_def example_hmm_def)
  have i: "0 < nat (hmm_N example_hmm)" "1 < nat (hmm_N example_hmm)"
    by (simp_all add: example_fields)
  note r00 = estep_occupancies [OF e i(1) i(1)]
  note r11 = estep_occupancies [OF e i(2) i(2)]
  have t: "0 < hmm_T example_hmm" "0 + 1 < hmm_T example_hmm"
    by (simp_all add: example_fields)
  note g00 = r00 [THEN conjunct2, THEN conjunct2, THEN conjunct1, rule_format, OF t(1)]
  note g01 = r11 [THEN conjunct2, THEN conjunct2, THEN conjunct1, rule_format, OF t(1)]
  note x00 = r00 [THEN conjunct2, THEN conjunct2, THEN conjunct2, THEN conjunct1, rule_format, OF t(2)]
  have g: "gamma ! 0 ! 0 = 4 / 9" "gamma ! 0 ! Suc 0 = 5 / 9" "(\<Sum>i<2. gamma ! 0 ! i) = 1"
    using g00 g01 by (simp_all add: Let_def example_fields sum_lessThan_2)
  have u: "xi_unscaled example_hmm ?alpha ?beta 0 0 0 = 8 / 27"
    "xi_unscaled example_hmm ?alpha ?beta 0 0 (Suc 0) = 4 / 27"
    "xi_unscaled example_hmm ?alpha ?beta 0 (Suc 0) 0 = 2 / 9"
    "xi_unscaled example_hmm ?alpha ?beta 0 (Suc 0) (Suc 0) = 1 / 3"
    by (simp_all add: xi_unscaled_def example_emit example_A)
  have x: "xi ! 0 ! 0 ! 0 = 8 / 27" "(\<Sum>i<2. \<Sum>j<2. xi ! 0 ! i ! j) = 1"
    using x00 by (simp_all add: Let_def example_fields sum_lessThan_2 u)
  show ?thesis
    using e r00 g x by (simp add: example_fields)
qed

subsection \<open>Rows sum to one\<close>

text \<open>
  Claim C1. For \<open>N \<ge> 1\<close>, \<open>M \<ge> 1\<close> and an observation sequence with at least two entries,
  one of them a symbol in \<open>[0, M)\<close> (every valid sequence is such), every row of \<open>pi\<close>, \<open>A\<close>
  and \<open>B\<close> sums to 1 right after construction, where no entry is zero either, after every
  iteration of the training loop, that is after every M-step, and in the instance that
  \<^verbatim>\<open>train\<close> leaves, which it does leave: training returns on such an input. Sums are
  exact here: the arithmetic is that of the reals.
\<close>

theorem rows_sum_to_one:
  assumes "HMM_new obs N M opts = Inr h0" and "1 \<le> N" and "1 \<le> M" and "2 \<le> length obs"
    and "\<exists>t<length obs. 0 \<le> obs ! t \<and> obs ! t < M"
  shows "row_stochastic h0 \<and> no_zero_entry h0
       \<and> (\<forall>h. em_reachable h0 h \<longrightarrow> row_stochastic h)
       \<and> (\<forall>cb. \<exists>h' calls. train cb h0 = Inr (h', calls))
       \<and> (\<forall>cb h' calls. train cb h0 = Inr (h', calls) \<longrightarrow> row_stochastic h')"
proof -
  note init = HMM_new_positive [OF assms(1,2,4,5)]
  have "0 < hmm_T h0" "0 \<le> hmm_N h0"
    using init by (auto simp: positive_model_def)
  then have total: "\<exists>h' calls. train cb h0 = Inr (h', calls)" for cb
    using train_total [of h0 cb] by auto
  have reach: "row_stochastic h" if "em_reachable h0 h" for h
    using em_reachable_positive [OF that] init by simp
  have "row_stochastic h'" if run: "train cb h0 = Inr (h', calls)" for cb h' calls
  proof -
    obtain hn where "em_reachable h0 hn" "hmm_pi h' = hmm_pi hn" "hmm_A h' = hmm_A hn"
      "hmm_B h' = hmm_B hn"
      using train_parameters [OF run] by blast
    then show ?thesis
      using reach [of hn] by (simp add: row_stochastic_def)
  qed
  with init reach total show ?thesis by blast
qed

theorem rows_sum_to_one_witness:
  "\<exists>h0 h1 logLik.
     HMM_new [0, 1, 1, 0] 2 2 \<lparr>opt_maxIter = None, opt_epsilon = None, opt_seed = None\<rparr> = Inr h0
     \<and> row_stochastic h0 \<and> no_zero_entry h0
     \<and> em_iteration h0 0 = Inr (h1, logLik) \<and> row_stochastic h1
     \<and> (\<exists>h' calls. train True h0 = Inr (h', calls) \<and> row_stochastic h')"
proof -
  let ?opts = "\<lparr>opt_maxIter = None, opt_epsilon = None, opt_seed = None\<rparr>"
  obtain h0 where h0: "HMM_new [0, 1, 1, 0] 2 2 ?opts = Inr h0"
    and f: "hmm_T h0 = length [0 :: int, 1, 1, 0]" "hmm_N h0 = 2"
    using HMM_new_fields [of "[0, 1, 1, 0]" 2 2 ?opts] by blast
  have valid: "(1 :: int) \<le> 2" "2 \<le> length [0 :: int, 1, 1, 0]"
    "\<exists>t<length [0 :: int, 1, 1, 0]. 0 \<le> [0 :: int, 1, 1, 0] ! t \<and> [0 :: int, 1, 1, 0] ! t < 2"
    by (simp_all, rule exI [of _ 0], simp)
  note main = rows_sum_to_one [OF h0 valid(1) valid(1) valid(2) valid(3)]
  obtain h1 logLik where it: "em_iteration h0 0 = Inr (h1, logLik)"
    using em_iteration_total [of h0 0] f by auto
  then have "em_reachable h0 h1"
    by (auto intro: em_reachable.intros)
  with main it h0 show ?thesis
    by metis
qed

subsection \<open>The generator\<close>

text \<open>A generator is determined by its seed modulo \<open>2\<^sup>3\<^sup>2\<close>, its state after \<open>k\<close> draws is the
  seed advanced \<open>k\<close> times by the constant, and each draw is a function of the state.\<close>

lemma mulberry32_wraps: "mulberry32 (seed + 2 ^ 32) = mulberry32 seed"
proof -
  have "(word_of_int (2 ^ 32) :: 32 word) = 0"
    by simp
  then show ?thesis
    by (simp add: mulberry32_def)
qed

lemma mulberry32_call_state: "snd (mulberry32_call g) = g + 0x6D2B79F5"
  by (simp add: mulberry32_call_def Let_def)

lemma draw_row_state: "draw_row k g = (xs, g') \<Longrightarrow> g' = g + of_nat k * 0x6D2B79F5"
proof (induction k arbitrary: g xs g')
  case 0
  then show ?case by simp
next
  case (Suc k)
  obtain x g1 where x: "mulberry32_call g = (x, g1)" by fastforce
  obtain ys g2 where ys: "draw_row k g1 = (ys, g2)" by fastforce
  have "g1 = g + 0x6D2B79F5"
    using mulberry32_call_state [of g] x by simp
  moreover have "g' = g2"
    using Suc.prems x ys by simp
  moreover have "g2 = g1 + of_nat k * 0x6D2B79F5"
    by (rule Suc.IH [OF ys])
  ultimately show ?case
    by (simp add: algebra_simps)
qed

lemma mulberry32_first_draws:
  "fst (mulberry32_call (mulberry32 1)) \<noteq> fst (mulberry32_call (mulberry32 2))"
  by (simp add: mulberry32_call_def mulberry32_def Let_def)

end
